theory Spec2Isabelle
  imports Main
begin

section \<open>Data model\<close>

text \<open>
  The event aggregator of \<^verbatim>\<open>internal/events/aggregator.go\<close>. The types of package
  \<^verbatim>\<open>fftypes\<close> are not among the sources; the records below hold the fields the aggregator
  reads and writes. A \<^verbatim>\<open>*fftypes.UUID\<close> that the aggregator dereferences or compares
  (an event's \<^verbatim>\<open>ID\<close> and \<^verbatim>\<open>Reference\<close>, a message's \<^verbatim>\<open>Group\<close>) is an option, with
  \<open>None\<close> for the nil pointer; the primary key of a stored message or blocked row is never nil.
\<close>

type_synonym UUID = nat

type_synonym FFTime = nat

text \<open>
  \<^verbatim>\<open>fftypes.EventType\<close> is a string type; the four constants the aggregator names are
  constructors, every other string is \<open>EventTypeOther\<close>.
\<close>

datatype EventType =
    EventTypeDataArrivedBroadcast
  | EventTypeMessageSequencedBroadcast
  | EventTypeMessageConfirmed
  | EventTypeMessagesUnblocked
  | EventTypeOther string

record Event =
  eID :: "UUID option"
  eSequence :: int
  eType :: EventType
  eNamespace :: string
  eReference :: "UUID option"

text \<open>A message: the fields of \<^verbatim>\<open>msg.Header\<close>, then \<^verbatim>\<open>Sequence\<close>, \<^verbatim>\<open>Confirmed\<close>, \<^verbatim>\<open>Data\<close>.\<close>

record Message =
  mID :: UUID
  mNamespace :: string
  mContext :: string
  mGroup :: "UUID option"
  mSequence :: int
  mConfirmed :: "FFTime option"
  mData :: "UUID list"

record MessageRef =
  rID :: UUID
  rSequence :: int

record Blocked =
  bID :: UUID
  bNamespace :: string
  bContext :: string
  bGroup :: "UUID option"
  bCreated :: FFTime
  bMessage :: UUID

text \<open>
  Errors as values. The first two are what a store call returns; the last two are the
  run-time panics of Go (a nil pointer dereference, an index out of range), which the
  guarded embedding turns into results.
\<close>

datatype error =
    PersistenceError nat
  | DuplicateKey
  | NilPointerDereference
  | IndexOutOfRange

definition is_panic :: "error \<Rightarrow> bool" where
  "is_panic err = (err = NilPointerDereference \<or> err = IndexOutOfRange)"

definition SystemNamespace :: string where
  \<comment> \<open>Modelled from the spec: the constant \<^verbatim>\<open>fftypes.SystemNamespace\<close> is not in the
      sources; it is the reserved system namespace.\<close>
  "SystemNamespace = ''ff_system''"

section \<open>The store\<close>

text \<open>
  The tables the aggregator reads and writes through \<^verbatim>\<open>database.Plugin\<close>: messages, the
  event log (in insertion order), blocked rows, the ids of the data that has arrived, and the
  value of the aggregator's offset row.
\<close>

record database =
  messages :: "Message list"
  events :: "Event list"
  blocked :: "Blocked list"
  data :: "UUID list"
  offset :: int

text \<open>Every call the aggregator makes on a collaborator, with the key it passes.\<close>

datatype Call =
    CallGetMessageByID "UUID option"
  | CallGetMessagesForData "UUID option"
  | CallGetEvents
  | CallGetMessageRefs
  | CallCheckDataAvailable UUID
  | CallGetBlockedByContext string string "UUID option"
  | CallUpsertBlocked UUID
  | CallUpdateBlocked UUID
  | CallDeleteBlocked UUID
  | CallUpdateMessage UUID
  | CallUpsertEvent EventType "UUID option"
  | CallHandleSystemBroadcast UUID
  | CallCommitOffset int

text \<open>
  The world a batch runs in: the tables, the clock read by \<^verbatim>\<open>fftypes.Now\<close>, the log of the
  calls made so far, and the schedule of failures: each call on a collaborator takes the head
  of \<open>faults\<close> and fails with \<open>PersistenceError n\<close> when the head is \<open>Some n\<close>; on the empty
  schedule every call succeeds.
\<close>

record world =
  db :: database
  now :: FFTime
  calls :: "Call list"
  faults :: "nat option list"

definition next_fault :: "world \<Rightarrow> error option" where
  "next_fault w = (case faults w of [] \<Rightarrow> None | f # _ \<Rightarrow> map_option PersistenceError f)"

definition called :: "Call \<Rightarrow> world \<Rightarrow> world" where
  "called c w = w\<lparr>calls := calls w @ [c], faults := tl (faults w)\<rparr>"

definition db_call :: "Call \<Rightarrow> world \<Rightarrow> error option \<times> world" where
  "db_call c w = (next_fault w, called c w)"

definition no_faults :: "world \<Rightarrow> bool" where
  \<comment> \<open>no call on a collaborator fails from here on\<close>
  "no_faults w = list_all (\<lambda>f. f = None) (faults w)"

subsection \<open>Query filters\<close>

text \<open>
  The filter builders of \<^verbatim>\<open>database.*QueryFactory\<close>: a condition on a row, an optional sort
  key and an optional limit. \<^verbatim>\<open>fb.Eq("confirmed", nil)\<close> is \<open>fb_Eq mConfirmed None\<close>.
\<close>

record 'a filter =
  fWhere :: "'a \<Rightarrow> bool"
  fSort :: "('a \<Rightarrow> int) option"
  fLimit :: "nat option"

definition fb_Eq :: "('a \<Rightarrow> 'b) \<Rightarrow> 'b \<Rightarrow> 'a \<Rightarrow> bool" where
  "fb_Eq field v row = (field row = v)"

definition fb_Gt :: "('a \<Rightarrow> int) \<Rightarrow> int \<Rightarrow> 'a \<Rightarrow> bool" where
  "fb_Gt field v row = (field row > v)"

definition fb_And :: "('a \<Rightarrow> bool) list \<Rightarrow> 'a filter" where
  "fb_And conds = \<lparr>fWhere = (\<lambda>row. list_all (\<lambda>c. c row) conds), fSort = None, fLimit = None\<rparr>"

definition Sort :: "('a \<Rightarrow> int) \<Rightarrow> 'a filter \<Rightarrow> 'a filter" where
  "Sort field f = f\<lparr>fSort := Some field\<rparr>"

definition Limit :: "nat \<Rightarrow> 'a filter \<Rightarrow> 'a filter" where
  "Limit n f = f\<lparr>fLimit := Some n\<rparr>"

definition run_filter :: "'a filter \<Rightarrow> 'a list \<Rightarrow> 'a list" where
  \<comment> \<open>Modelled from the spec: the query engine is not in the sources. Rows that satisfy the
      condition, in table order or sorted ascending (stably) by the sort key, cut at the limit.\<close>
  "run_filter f rows =
     (let matching = filter (fWhere f) rows;
          ordered = (case fSort f of None \<Rightarrow> matching | Some k \<Rightarrow> sort_key k matching)
      in case fLimit f of None \<Rightarrow> ordered | Some n \<Rightarrow> take n ordered)"

subsection \<open>Store operations\<close>

definition GetMessageByID :: "UUID option \<Rightarrow> world \<Rightarrow> world \<times> (error + Message option)" where
  \<comment> \<open>Modelled from the spec: \<^verbatim>\<open>GetMessageByID(id)\<close>, "Fetch or nil".\<close>
  "GetMessageByID ident w =
     (case db_call (CallGetMessageByID ident) w of
        (Some err, w') \<Rightarrow> (w', Inl err)
      | (None, w') \<Rightarrow>
          (w', Inr (find (\<lambda>m. Some (mID m) = ident) (messages (db w')))))"

definition GetMessagesForData ::
  "UUID option \<Rightarrow> Message filter \<Rightarrow> world \<Rightarrow> world \<times> (error + Message list)" where
  \<comment> \<open>Modelled from the spec: \<^verbatim>\<open>GetMessagesForData(dataID, filter)\<close>, "Messages referencing a
      data blob".\<close>
  "GetMessagesForData dataID f w =
     (case db_call (CallGetMessagesForData dataID) w of
        (Some err, w') \<Rightarrow> (w', Inl err)
      | (None, w') \<Rightarrow>
          (w', Inr (run_filter f (filter (\<lambda>m. dataID \<in> set (map Some (mData m)))
                                         (messages (db w'))))))"

definition GetEvents :: "Event filter \<Rightarrow> world \<Rightarrow> world \<times> (error + Event list)" where
  \<comment> \<open>Modelled from the spec: \<^verbatim>\<open>GetEvents(filter)\<close>, "Ordered query over the event log".\<close>
  "GetEvents f w =
     (case db_call CallGetEvents w of
        (Some err, w') \<Rightarrow> (w', Inl err)
      | (None, w') \<Rightarrow> (w', Inr (run_filter f (events (db w')))))"

definition GetMessageRefs :: "Message filter \<Rightarrow> world \<Rightarrow> world \<times> (error + MessageRef list)" where
  \<comment> \<open>Modelled from the spec: \<^verbatim>\<open>GetMessageRefs(filter)\<close>, "Lightweight projection for
      successor lookup".\<close>
  "GetMessageRefs f w =
     (case db_call CallGetMessageRefs w of
        (Some err, w') \<Rightarrow> (w', Inl err)
      | (None, w') \<Rightarrow>
          (w', Inr (map (\<lambda>m. \<lparr>rID = mID m, rSequence = mSequence m\<rparr>)
                        (run_filter f (messages (db w'))))))"

definition CheckDataAvailable :: "Message \<Rightarrow> world \<Rightarrow> world \<times> (error + bool)" where
  \<comment> \<open>Modelled from the spec: \<^verbatim>\<open>CheckDataAvailable(msg)\<close>, "Boolean over all of msg's data
      refs; returns error only on persistence failure".\<close>
  "CheckDataAvailable msg w =
     (case db_call (CallCheckDataAvailable (mID msg)) w of
        (Some err, w') \<Rightarrow> (w', Inl err)
      | (None, w') \<Rightarrow> (w', Inr (list_all (\<lambda>d. d \<in> set (data (db w'))) (mData msg))))"

definition GetBlockedByContext ::
  "string \<Rightarrow> string \<Rightarrow> UUID option \<Rightarrow> world \<Rightarrow> world \<times> (error + Blocked option)" where
  \<comment> \<open>Modelled from the spec: \<^verbatim>\<open>GetBlockedByContext(ns, ctx, group)\<close>, "Fetch or nil"; a nil
      group is a group of its own.\<close>
  "GetBlockedByContext ns ctx grp w =
     (case db_call (CallGetBlockedByContext ns ctx grp) w of
        (Some err, w') \<Rightarrow> (w', Inl err)
      | (None, w') \<Rightarrow>
          (w', Inr (find (\<lambda>b. bNamespace b = ns \<and> bContext b = ctx \<and> bGroup b = grp)
                         (blocked (db w')))))"

definition UpsertBlocked :: "Blocked \<Rightarrow> bool \<Rightarrow> world \<Rightarrow> world \<times> error option" where
  \<comment> \<open>Modelled from the spec: \<^verbatim>\<open>UpsertBlocked(b, allowExisting)\<close>, "Insert-or-update"; without
      \<^verbatim>\<open>allowExisting\<close> a row with the same id is a failed insert.\<close>
  "UpsertBlocked b allowExisting w =
     (case db_call (CallUpsertBlocked (bID b)) w of
        (Some err, w') \<Rightarrow> (w', Some err)
      | (None, w') \<Rightarrow>
          if bID b \<in> set (map bID (blocked (db w'))) then
            (if allowExisting
             then (w'\<lparr>db := (db w')\<lparr>blocked := map (\<lambda>r. if bID r = bID b then b else r)
                                                      (blocked (db w'))\<rparr>\<rparr>, None)
             else (w', Some DuplicateKey))
          else (w'\<lparr>db := (db w')\<lparr>blocked := blocked (db w') @ [b]\<rparr>\<rparr>, None))"

definition UpdateBlocked :: "UUID \<Rightarrow> (Blocked \<Rightarrow> Blocked) \<Rightarrow> world \<Rightarrow> world \<times> error option" where
  \<comment> \<open>Modelled from the spec: \<^verbatim>\<open>UpdateBlocked(id, update)\<close>, "Partial update" of the rows with
      that id.\<close>
  "UpdateBlocked ident u w =
     (case db_call (CallUpdateBlocked ident) w of
        (Some err, w') \<Rightarrow> (w', Some err)
      | (None, w') \<Rightarrow>
          (w'\<lparr>db := (db w')\<lparr>blocked := map (\<lambda>r. if bID r = ident then u r else r)
                                                (blocked (db w'))\<rparr>\<rparr>, None))"

definition DeleteBlocked :: "UUID \<Rightarrow> world \<Rightarrow> world \<times> error option" where
  \<comment> \<open>Modelled from the spec: \<^verbatim>\<open>DeleteBlocked(id)\<close>, "Remove".\<close>
  "DeleteBlocked ident w =
     (case db_call (CallDeleteBlocked ident) w of
        (Some err, w') \<Rightarrow> (w', Some err)
      | (None, w') \<Rightarrow>
          (w'\<lparr>db := (db w')\<lparr>blocked := filter (\<lambda>r. bID r \<noteq> ident) (blocked (db w'))\<rparr>\<rparr>, None))"

definition UpdateMessage :: "UUID \<Rightarrow> (Message \<Rightarrow> Message) \<Rightarrow> world \<Rightarrow> world \<times> error option" where
  \<comment> \<open>Modelled from the spec: \<^verbatim>\<open>UpdateMessage(id, update)\<close>, "Partial update" of the rows with
      that id.\<close>
  "UpdateMessage ident u w =
     (case db_call (CallUpdateMessage ident) w of
        (Some err, w') \<Rightarrow> (w', Some err)
      | (None, w') \<Rightarrow>
          (w'\<lparr>db := (db w')\<lparr>messages := map (\<lambda>m. if mID m = ident then u m else m)
                                                 (messages (db w'))\<rparr>\<rparr>, None))"

definition next_sequence :: "Event list \<Rightarrow> int" where
  \<comment> \<open>Modelled from the spec: an event's sequence is "monotonic int64, assigned at insert".\<close>
  "next_sequence evs = 1 + foldr max (map eSequence evs) 0"

definition UpsertEvent :: "Event \<Rightarrow> bool \<Rightarrow> world \<Rightarrow> world \<times> error option" where
  \<comment> \<open>Modelled from the spec: \<^verbatim>\<open>UpsertEvent(e, allowExisting)\<close>, "Insert a new event;
      allowExisting=false fails on id collision". The row gets the next sequence.\<close>
  "UpsertEvent e allowExisting w =
     (case db_call (CallUpsertEvent (eType e) (eReference e)) w of
        (Some err, w') \<Rightarrow> (w', Some err)
      | (None, w') \<Rightarrow>
          if eID e \<in> set (map eID (events (db w'))) then
            (if allowExisting
             then (w'\<lparr>db := (db w')\<lparr>events := map (\<lambda>r. if eID r = eID e
                                                             then e\<lparr>eSequence := eSequence r\<rparr> else r)
                                                     (events (db w'))\<rparr>\<rparr>, None)
             else (w', Some DuplicateKey))
          else (w'\<lparr>db := (db w')\<lparr>events := events (db w')
                         @ [e\<lparr>eSequence := next_sequence (events (db w'))\<rparr>]\<rparr>\<rparr>, None))"

definition commitOffset :: "int \<Rightarrow> world \<Rightarrow> world \<times> error option" where
  \<comment> \<open>Modelled from the spec: \<^verbatim>\<open>eventPoller.commitOffset\<close> is not in the sources; it writes
      the offset row ("advance the committed offset to last(batch).sequence").\<close>
  "commitOffset v w =
     (case db_call (CallCommitOffset v) w of
        (Some err, w') \<Rightarrow> (w', Some err)
      | (None, w') \<Rightarrow> (w'\<lparr>db := (db w')\<lparr>offset := v\<rparr>\<rparr>, None))"

definition HandleSystemBroadcast :: "Message \<Rightarrow> world \<Rightarrow> world \<times> error option" where
  \<comment> \<open>Modelled from the spec: the system-broadcast handler is an external collaborator; the
      call is logged and may fail, and the tables of the aggregator stay as they are.\<close>
  "HandleSystemBroadcast msg w =
     (case db_call (CallHandleSystemBroadcast (mID msg)) w of
        (Some err, w') \<Rightarrow> (w', Some err)
      | (None, w') \<Rightarrow> (w', None))"

definition RunAsGroup :: "(world \<Rightarrow> world \<times> 'a \<times> error option) \<Rightarrow> world \<Rightarrow> world \<times> 'a \<times> error option" where
  \<comment> \<open>Modelled from the spec: \<^verbatim>\<open>RunAsGroup(ctx, fn)\<close>, "Executes fn inside a single
      transaction"; "A returned error rolls back the batch's transaction".\<close>
  "RunAsGroup fn w =
     (case fn w of
        (w', r, Some err) \<Rightarrow> (w'\<lparr>db := db w\<rparr>, r, Some err)
      | (w', r, None) \<Rightarrow> (w', r, None))"

definition Now :: "world \<Rightarrow> FFTime \<times> world" where
  \<comment> \<open>Modelled from the spec: \<^verbatim>\<open>fftypes.Now\<close> is not in the sources; it reads a clock that
      moves on.\<close>
  "Now w = (now w, w\<lparr>now := Suc (now w)\<rparr>)"

definition used_ids :: "world \<Rightarrow> UUID list" where
  "used_ids w = map mID (messages (db w)) @ map bID (blocked (db w))
                @ List.map_filter eID (events (db w))"

definition NewUUID :: "world \<Rightarrow> UUID" where
  \<comment> \<open>Modelled from the spec: \<^verbatim>\<open>fftypes.NewUUID\<close> is not in the sources; a random UUID, taken
      as an id that no row of the store has as its key.\<close>
  "NewUUID w = Suc (foldr max (used_ids w) 0)"

definition NewEvent :: "EventType \<Rightarrow> string \<Rightarrow> UUID option \<Rightarrow> world \<Rightarrow> Event" where
  \<comment> \<open>Modelled from the spec: \<^verbatim>\<open>fftypes.NewEvent(type, namespace, reference)\<close> is not in the
      sources; an event with a new id, its sequence not yet assigned.\<close>
  "NewEvent t ns ref w =
     \<lparr>eID = Some (NewUUID w), eSequence = 0, eType = t, eNamespace = ns, eReference = ref\<rparr>"

section \<open>The lookahead index\<close>

text \<open>
  \<^verbatim>\<open>type eventsByRef map[fftypes.UUID][]*fftypes.Event\<close>, as an association list with one
  entry per key, in the order the keys were first stored. Go leaves the order in which
  \<^verbatim>\<open>remove\<close> walks the map open; with the event ids of a batch distinct, at most one entry
  holds the id and the order does not matter.
\<close>

type_synonym eventsByRef = "(UUID \<times> Event list) list"

definition hasAnyOf :: "eventsByRef \<Rightarrow> UUID \<Rightarrow> EventType list \<Rightarrow> bool" where
  "hasAnyOf ebr ref types =
     (case map_of ebr ref of
        Some evs \<Rightarrow> list_ex (\<lambda>ev. list_ex (\<lambda>t. eType ev = t) types) evs
      | None \<Rightarrow> False)"

fun remove_at :: "UUID \<Rightarrow> Event list \<Rightarrow> Event list option" where
  \<comment> \<open>the inner loop of \<^verbatim>\<open>remove\<close>: the list without the first event with that id\<close>
  "remove_at eventID [] = None"
| "remove_at eventID (ev # evs) =
     (if eID ev = Some eventID then Some evs
      else map_option (\<lambda>evs'. ev # evs') (remove_at eventID evs))"

fun remove :: "eventsByRef \<Rightarrow> UUID \<Rightarrow> bool \<times> eventsByRef" where
  "remove [] eventID = (False, [])"
| "remove ((ref, evs) # ebr) eventID =
     (case remove_at eventID evs of
        Some evs' \<Rightarrow> (True, (ref, evs') # ebr)
      | None \<Rightarrow> (case remove ebr eventID of (removed, ebr') \<Rightarrow> (removed, (ref, evs) # ebr')))"

fun lookahead_append :: "eventsByRef \<Rightarrow> UUID \<Rightarrow> Event \<Rightarrow> eventsByRef" where
  \<comment> \<open>\<^verbatim>\<open>lookahead[ref] = append(lookahead[ref], event)\<close>\<close>
  "lookahead_append [] ref event = [(ref, [event])]"
| "lookahead_append ((k, evs) # ebr) ref event =
     (if k = ref then (k, evs @ [event]) # ebr else (k, evs) # lookahead_append ebr ref event)"

fun build_lookahead :: "eventsByRef \<Rightarrow> Event list \<Rightarrow> error + eventsByRef" where
  \<comment> \<open>the first loop of \<^verbatim>\<open>processEvents\<close>; \<^verbatim>\<open>*event.Reference\<close> panics on nil\<close>
  "build_lookahead lookahead [] = Inr lookahead"
| "build_lookahead lookahead (event # evs) =
     (case eReference event of
        None \<Rightarrow> Inl NilPointerDereference
      | Some ref \<Rightarrow> build_lookahead (lookahead_append lookahead ref event) evs)"

section \<open>The aggregator\<close>

definition checkUpdateContextBlocked ::
  "Message \<Rightarrow> bool \<Rightarrow> world \<Rightarrow> world \<times> (error + Blocked option)" where
  "checkUpdateContextBlocked msg complete w =
     (case GetBlockedByContext (mNamespace msg) (mContext msg) (mGroup msg) w of
        (w1, Inl err) \<Rightarrow> (w1, Inl err)
      | (w1, Inr blockedBy) \<Rightarrow>
          if blockedBy = None \<and> \<not> complete then
            (case Now w1 of
               (created, w2) \<Rightarrow>
                 (let b = \<lparr>bID = NewUUID w1, bNamespace = mNamespace msg,
                           bContext = mContext msg, bGroup = mGroup msg,
                           bCreated = created, bMessage = mID msg\<rparr>
                  in case UpsertBlocked b False w2 of
                       (w3, Some err) \<Rightarrow> (w3, Inl err)
                     | (w3, None) \<Rightarrow> (w3, Inr (Some b))))
          else (w1, Inr blockedBy))"

definition unblockContext ::
  "Message \<Rightarrow> eventsByRef \<Rightarrow> Blocked \<Rightarrow> world \<Rightarrow> world \<times> bool \<times> error option" where
  \<comment> \<open>lines 271 to 313 of \<^verbatim>\<open>checkMessageComplete\<close>: the body of \<^verbatim>\<open>if unblock\<close>, up to the
      final return\<close>
  "unblockContext msg lookahead blockedBy w =
     (case GetMessageRefs
             (Limit 1 (Sort mSequence (fb_And
                [fb_Eq mNamespace (mNamespace msg),
                 fb_Eq mGroup (mGroup msg),
                 fb_Eq mContext (mContext msg),
                 fb_Gt mSequence (mSequence msg),
                 fb_Eq mConfirmed None]))) w of
        (w1, Inl err) \<Rightarrow> (w1, False, Some err)
      | (w1, Inr unblockable) \<Rightarrow>
          (case unblockable of
             unblockMsg # _ \<Rightarrow>
               (case UpdateBlocked (bID blockedBy) (\<lambda>r. r\<lparr>bMessage := rID unblockMsg\<rparr>) w1 of
                  (w2, Some err) \<Rightarrow> (w2, False, Some err)
                | (w2, None) \<Rightarrow>
                    if hasAnyOf lookahead (rID unblockMsg)
                         [EventTypeMessageConfirmed, EventTypeMessageSequencedBroadcast]
                    then (w2, False, None)
                    else (case UpsertEvent
                                 (NewEvent EventTypeMessagesUnblocked (mNamespace msg)
                                    (Some (rID unblockMsg)) w2) False w2 of
                            (w3, Some err) \<Rightarrow> (w3, False, Some err)
                          | (w3, None) \<Rightarrow> (w3, True, None)))
           | [] \<Rightarrow>
               (case DeleteBlocked (bID blockedBy) w1 of
                  (w2, Some err) \<Rightarrow> (w2, False, Some err)
                | (w2, None) \<Rightarrow> (w2, False, None))))"

definition sequencedEventExists :: "Message \<Rightarrow> Event \<Rightarrow> world \<Rightarrow> world \<times> (error + bool)" where
  \<comment> \<open>lines 211 to 225 of \<^verbatim>\<open>checkMessageComplete\<close>: \<open>Inr False\<close> is its
      \<^verbatim>\<open>return false, nil\<close>, \<open>Inr True\<close> lets the function go on\<close>
  "sequencedEventExists msg event w =
     (if eReference event \<noteq> Some (mID msg) then
        (case GetEvents
                (Limit 1 (fb_And
                   [fb_Eq eReference (Some (mID msg)),
                    fb_Eq eType EventTypeMessageSequencedBroadcast])) w of
           (w1, Inl err) \<Rightarrow> (w1, Inl err)
         | (w1, Inr msgs) \<Rightarrow> if length msgs < 1 then (w1, Inr False) else (w1, Inr True))
      else (w, Inr True))"

definition confirmMessage :: "Message \<Rightarrow> world \<Rightarrow> world \<times> error option" where
  \<comment> \<open>lines 244 to 265 of \<^verbatim>\<open>checkMessageComplete\<close>: the system broadcast, the update of
      \<^verbatim>\<open>confirmed\<close> and the confirmed event\<close>
  "confirmMessage msg w =
     (case (if mNamespace msg = SystemNamespace then HandleSystemBroadcast msg w else (w, None)) of
        (w1, Some err) \<Rightarrow> (w1, Some err)
      | (w1, None) \<Rightarrow>
          (case Now w1 of
             (t, w2) \<Rightarrow>
               (case UpdateMessage (mID msg) (\<lambda>m. m\<lparr>mConfirmed := Some t\<rparr>) w2 of
                  (w3, Some err) \<Rightarrow> (w3, Some err)
                | (w3, None) \<Rightarrow>
                    UpsertEvent (NewEvent EventTypeMessageConfirmed (mNamespace msg)
                                   (Some (mID msg)) w3) False w3)))"

definition checkMessageComplete ::
  "Message \<Rightarrow> eventsByRef \<Rightarrow> Event \<Rightarrow> world \<Rightarrow> world \<times> bool \<times> error option" where
  "checkMessageComplete msg lookahead event w =
     (case sequencedEventExists msg event w of
        (w1, Inl err) \<Rightarrow> (w1, False, Some err)
      | (w1, Inr False) \<Rightarrow> (w1, False, None)
      | (w1, Inr True) \<Rightarrow>
          (case CheckDataAvailable msg w1 of
             (w2, Inl err) \<Rightarrow> (w2, False, Some err)
           | (w2, Inr complete) \<Rightarrow>
               (case checkUpdateContextBlocked msg complete w2 of
                  (w3, Inl err) \<Rightarrow> (w3, False, Some err)
                | (w3, Inr blockedBy) \<Rightarrow>
                    if \<not> complete \<or> (blockedBy \<noteq> None \<and> map_option bMessage blockedBy \<noteq> Some (mID msg))
                    then (w3, False, None)
                    else
                      (case confirmMessage msg w3 of
                         (w4, Some err) \<Rightarrow> (w4, False, Some err)
                       | (w4, None) \<Rightarrow>
                           (case blockedBy of
                              Some b \<Rightarrow>
                                if bMessage b = mID msg then unblockContext msg lookahead b w4
                                else (w4, False, None)
                            | None \<Rightarrow> (w4, False, None))))))"

fun processDataArrived_loop ::
  "Message list \<Rightarrow> eventsByRef \<Rightarrow> Event \<Rightarrow> bool \<Rightarrow> world \<Rightarrow> world \<times> bool \<times> error option" where
  \<comment> \<open>the loop over \<^verbatim>\<open>msgs\<close> of \<^verbatim>\<open>processDataArrived\<close>, with the local \<^verbatim>\<open>repoll\<close>\<close>
  "processDataArrived_loop [] lookahead event repoll w = (w, repoll, None)"
| "processDataArrived_loop (msg # msgs) lookahead event repoll w =
     (if hasAnyOf lookahead (mID msg) [EventTypeMessageSequencedBroadcast]
      then processDataArrived_loop msgs lookahead event repoll w
      else (case checkMessageComplete msg lookahead event w of
              (w', msgRepoll, Some err) \<Rightarrow> (w', False, Some err)
            | (w', msgRepoll, None) \<Rightarrow>
                processDataArrived_loop msgs lookahead event (repoll \<or> msgRepoll) w'))"

definition processDataArrived ::
  "string \<Rightarrow> eventsByRef \<Rightarrow> Event \<Rightarrow> world \<Rightarrow> world \<times> bool \<times> error option" where
  "processDataArrived ns lookahead event w =
     (case GetMessagesForData (eReference event)
             (Sort mSequence (fb_And [fb_Eq mNamespace ns, fb_Eq mConfirmed None])) w of
        (w1, Inl err) \<Rightarrow> (w1, False, Some err)
      | (w1, Inr msgs) \<Rightarrow> processDataArrived_loop msgs lookahead event False w1)"

definition processEvent :: "eventsByRef \<Rightarrow> Event \<Rightarrow> world \<Rightarrow> world \<times> bool \<times> error option" where
  "processEvent batchRefs event w =
     (case eType event of
        EventTypeDataArrivedBroadcast \<Rightarrow> processDataArrived (eNamespace event) batchRefs event w
      | EventTypeMessageSequencedBroadcast \<Rightarrow>
          (case GetMessageByID (eReference event) w of
             (w1, Inl err) \<Rightarrow> (w1, False, Some err)
           | (w1, Inr msg) \<Rightarrow>
               (case msg of
                  Some m \<Rightarrow>
                    if mConfirmed m = None then checkMessageComplete m batchRefs event w1
                    else (w1, False, None)
                | None \<Rightarrow> (w1, False, None)))
      | _ \<Rightarrow> (w, False, None))"

fun processEvents_loop ::
  "eventsByRef \<Rightarrow> Event list \<Rightarrow> bool \<Rightarrow> world \<Rightarrow> world \<times> bool \<times> error option" where
  \<comment> \<open>the second loop of \<^verbatim>\<open>processEvents\<close>, with the named result \<^verbatim>\<open>repoll\<close>;
      \<^verbatim>\<open>*event.ID\<close> panics on nil\<close>
  "processEvents_loop lookahead [] repoll w = (w, repoll, None)"
| "processEvents_loop lookahead (event # evs) repoll w =
     (case eID event of
        None \<Rightarrow> (w, False, Some NilPointerDereference)
      | Some ident \<Rightarrow>
          (case remove lookahead ident of
             (removed, lookahead') \<Rightarrow>
               (case processEvent lookahead' event w of
                  (w', repoll', Some err) \<Rightarrow> (w', False, Some err)
                | (w', repoll', None) \<Rightarrow> processEvents_loop lookahead' evs repoll' w')))"

definition processEvents :: "Event list \<Rightarrow> world \<Rightarrow> world \<times> bool \<times> error option" where
  "processEvents evs w =
     (case build_lookahead [] evs of
        Inl err \<Rightarrow> (w, False, Some err)
      | Inr lookahead \<Rightarrow>
          (case processEvents_loop lookahead evs False w of
             (w', repoll, Some err) \<Rightarrow> (w', False, Some err)
           | (w', repoll, None) \<Rightarrow>
               if evs = [] then (w', False, Some IndexOutOfRange)
               else (case commitOffset (eSequence (last evs)) w' of
                       (w'', err) \<Rightarrow> (w'', repoll, err))))"

definition processEventRetryAndGroup :: "Event list \<Rightarrow> world \<Rightarrow> world \<times> bool \<times> error option" where
  "processEventRetryAndGroup evs w = RunAsGroup (processEvents evs) w"

section \<open>Vocabulary of the properties\<close>

definition blockerOf :: "Message \<Rightarrow> world \<Rightarrow> Blocked option" where
  \<comment> \<open>the Blocked row of the message's (namespace, context, group), if there is one\<close>
  "blockerOf msg w =
     find (\<lambda>b. bNamespace b = mNamespace msg \<and> bContext b = mContext msg \<and> bGroup b = mGroup msg)
          (blocked (db w))"

definition newBlocked :: "Message \<Rightarrow> world \<Rightarrow> Blocked" where
  \<comment> \<open>the row that \<^verbatim>\<open>checkUpdateContextBlocked\<close> builds for a context it starts to block\<close>
  "newBlocked msg w =
     \<lparr>bID = NewUUID w, bNamespace = mNamespace msg, bContext = mContext msg,
      bGroup = mGroup msg, bCreated = now w, bMessage = mID msg\<rparr>"

definition dataAvailable :: "Message \<Rightarrow> world \<Rightarrow> bool" where
  \<comment> \<open>every data reference of the message has arrived\<close>
  "dataAvailable msg w = list_all (\<lambda>d. d \<in> set (data (db w))) (mData msg)"

definition sequenced :: "Message \<Rightarrow> world \<Rightarrow> bool" where
  \<comment> \<open>the event log holds a message-sequenced-broadcast event for the message\<close>
  "sequenced msg w =
     list_ex (\<lambda>e. eReference e = Some (mID msg) \<and> eType e = EventTypeMessageSequencedBroadcast)
             (events (db w))"

definition gateOpen :: "Message \<Rightarrow> Event \<Rightarrow> world \<Rightarrow> bool" where
  \<comment> \<open>what lets \<^verbatim>\<open>checkMessageComplete\<close> go on to confirm: the envelope has arrived, the
      data is complete, and the context is free or blocked by this very message\<close>
  "gateOpen msg event w =
     ((eReference event = Some (mID msg) \<or> sequenced msg w)
      \<and> dataAvailable msg w
      \<and> (case blockerOf msg w of None \<Rightarrow> True | Some b \<Rightarrow> bMessage b = mID msg))"

definition confirmRows :: "Message \<Rightarrow> FFTime \<Rightarrow> Message list \<Rightarrow> Message list" where
  \<comment> \<open>the messages table after \<^verbatim>\<open>confirmed\<close> is set on the rows with the message's id\<close>
  "confirmRows msg t rows = map (\<lambda>m. if mID m = mID msg then m\<lparr>mConfirmed := Some t\<rparr> else m) rows"

definition laterUnconfirmed :: "Message \<Rightarrow> Message list \<Rightarrow> Message list" where
  \<comment> \<open>the rows that the successor query of \<^verbatim>\<open>checkMessageComplete\<close> selects\<close>
  "laterUnconfirmed msg rows =
     [m \<leftarrow> rows. mNamespace m = mNamespace msg \<and> mGroup m = mGroup msg
        \<and> mContext m = mContext msg \<and> mSequence msg < mSequence m \<and> mConfirmed m = None]"

definition successors :: "Message \<Rightarrow> world \<Rightarrow> Message list" where
  \<comment> \<open>the unconfirmed messages of the same (namespace, group, context) with a higher
      sequence; a row with the message's own id is confirmed by the time the query runs\<close>
  "successors msg w =
     [m \<leftarrow> messages (db w).
        mID m \<noteq> mID msg \<and> mNamespace m = mNamespace msg \<and> mGroup m = mGroup msg
        \<and> mContext m = mContext msg \<and> mSequence msg < mSequence m \<and> mConfirmed m = None]"

definition confirmedEvent :: "Message \<Rightarrow> world \<Rightarrow> Event" where
  \<comment> \<open>the message-confirmed event as it is stored\<close>
  "confirmedEvent msg w =
     \<lparr>eID = Some (NewUUID w), eSequence = next_sequence (events (db w)),
      eType = EventTypeMessageConfirmed, eNamespace = mNamespace msg,
      eReference = Some (mID msg)\<rparr>"

definition unblockedEvent :: "Message \<Rightarrow> UUID \<Rightarrow> world \<Rightarrow> Event" where
  \<comment> \<open>the messages-unblocked event as it is stored\<close>
  "unblockedEvent msg n w =
     \<lparr>eID = Some (NewUUID w), eSequence = next_sequence (events (db w)),
      eType = EventTypeMessagesUnblocked, eNamespace = mNamespace msg,
      eReference = Some n\<rparr>"

definition eventKey :: "Event \<Rightarrow> EventType \<times> string \<times> UUID option" where
  "eventKey e = (eType e, eNamespace e, eReference e)"

definition confirmedInSequenceOrder :: "Message list \<Rightarrow> bool" where
  \<comment> \<open>within each (namespace, context, group): a confirmed message has every
      lower-sequenced message confirmed before it\<close>
  "confirmedInSequenceOrder rows =
     list_all (\<lambda>m. list_all (\<lambda>m'.
        mNamespace m = mNamespace m' \<and> mContext m = mContext m' \<and> mGroup m = mGroup m'
        \<and> mSequence m < mSequence m'
        \<longrightarrow> (case mConfirmed m' of
               None \<Rightarrow> True
             | Some t' \<Rightarrow> (case mConfirmed m of None \<Rightarrow> False | Some t \<Rightarrow> t < t'))) rows) rows"

fun processEvent_repolls :: "eventsByRef \<Rightarrow> Event list \<Rightarrow> world \<Rightarrow> bool list" where
  \<comment> \<open>the repoll that \<^verbatim>\<open>processEvent\<close> returns for each event of the batch, in batch
      order, up to the first error\<close>
  "processEvent_repolls lookahead [] w = []"
| "processEvent_repolls lookahead (event # evs) w =
     (case eID event of
        None \<Rightarrow> []
      | Some ident \<Rightarrow>
          (case remove lookahead ident of
             (removed, lookahead') \<Rightarrow>
               (case processEvent lookahead' event w of
                  (w', repoll, Some err) \<Rightarrow> []
                | (w', repoll, None) \<Rightarrow> repoll # processEvent_repolls lookahead' evs w')))"

definition lookahead_after :: "eventsByRef \<Rightarrow> Event list \<Rightarrow> eventsByRef" where
  \<comment> \<open>the lookahead index once the loop of \<^verbatim>\<open>processEvents\<close> has removed these events\<close>
  "lookahead_after lookahead evs =
     foldl (\<lambda>l e. case eID e of None \<Rightarrow> l | Some ident \<Rightarrow> snd (remove l ident)) lookahead evs"

definition commits :: "world \<Rightarrow> Call list" where
  \<comment> \<open>the offset commits made so far\<close>
  "commits w = [c \<leftarrow> calls w. case c of CallCommitOffset _ \<Rightarrow> True | _ \<Rightarrow> False]"

definition unconfirmedForData :: "string \<Rightarrow> UUID option \<Rightarrow> world \<Rightarrow> Message list" where
  \<comment> \<open>in the spec's words: the messages whose dataRefs contain the data id, of the
      namespace, with \<^verbatim>\<open>confirmed\<close> null; in table order\<close>
  "unconfirmedForData ns dataID w =
     [m \<leftarrow> messages (db w).
        dataID \<in> Some ` set (mData m) \<and> mNamespace m = ns \<and> mConfirmed m = None]"

fun completionChecks ::
  "Message list \<Rightarrow> eventsByRef \<Rightarrow> Event \<Rightarrow> world \<Rightarrow> world \<times> bool list \<times> error option" where
  \<comment> \<open>in the spec's words: \<^verbatim>\<open>checkMessageComplete\<close> called on each message in turn, up to
      the first error, with the repolls it returned\<close>
  "completionChecks [] lookahead event w = (w, [], None)"
| "completionChecks (msg # msgs) lookahead event w =
     (case checkMessageComplete msg lookahead event w of
        (w', repoll, Some err) \<Rightarrow> (w', [], Some err)
      | (w', repoll, None) \<Rightarrow>
          (case completionChecks msgs lookahead event w' of
             (w'', repolls, err) \<Rightarrow> (w'', repoll # repolls, err)))"

section \<open>Example stores\<close>

text \<open>
  Two messages of one context, the first sequenced before the second, their sequenced
  events, the data-arrived events for their data, a confirmed event of another message, and
  a blocked row that names the first message.
\<close>

definition msg1 :: Message where
  "msg1 = \<lparr>mID = 1, mNamespace = ''ns1'', mContext = ''ctx1'', mGroup = None,
            mSequence = 1, mConfirmed = None, mData = [11]\<rparr>"

definition msg2 :: Message where
  "msg2 = \<lparr>mID = 2, mNamespace = ''ns1'', mContext = ''ctx1'', mGroup = None,
            mSequence = 2, mConfirmed = None, mData = [12]\<rparr>"

definition ev_seq1 :: Event where
  "ev_seq1 = \<lparr>eID = Some 31, eSequence = 1, eType = EventTypeMessageSequencedBroadcast,
               eNamespace = ''ns1'', eReference = Some 1\<rparr>"

definition ev_seq2 :: Event where
  "ev_seq2 = \<lparr>eID = Some 32, eSequence = 2, eType = EventTypeMessageSequencedBroadcast,
               eNamespace = ''ns1'', eReference = Some 2\<rparr>"

definition ev_data1 :: Event where
  "ev_data1 = \<lparr>eID = Some 33, eSequence = 3, eType = EventTypeDataArrivedBroadcast,
                eNamespace = ''ns1'', eReference = Some 11\<rparr>"

definition ev_data2 :: Event where
  "ev_data2 = \<lparr>eID = Some 34, eSequence = 3, eType = EventTypeDataArrivedBroadcast,
                eNamespace = ''ns1'', eReference = Some 12\<rparr>"

definition ev_conf :: Event where
  "ev_conf = \<lparr>eID = Some 35, eSequence = 4, eType = EventTypeMessageConfirmed,
               eNamespace = ''ns1'', eReference = Some 9\<rparr>"

definition blocker1 :: Blocked where
  "blocker1 = \<lparr>bID = 50, bNamespace = ''ns1'', bContext = ''ctx1'', bGroup = None,
                bCreated = 0, bMessage = 1\<rparr>"

definition world_of :: "database \<Rightarrow> world" where
  "world_of d = \<lparr>db = d, now = 7, calls = [], faults = []\<rparr>"

definition db_empty :: database where
  "db_empty = \<lparr>messages = [], events = [], blocked = [], data = [], offset = 0\<rparr>"

definition db_blocked :: database where
  \<comment> \<open>both sequenced events were processed while the first message waited for its data,
      which left the context blocked by the first message; now that data has arrived\<close>
  "db_blocked = \<lparr>messages = [msg1, msg2], events = [ev_seq1, ev_seq2, ev_data1, ev_conf],
                  blocked = [blocker1], data = [11, 12], offset = 2\<rparr>"

definition db_second_first :: database where
  \<comment> \<open>the second message is sequenced and complete; the first waits for its data, its
      sequenced event lies before the offset, and nothing blocks the context\<close>
  "db_second_first = \<lparr>messages = [msg1, msg2], events = [ev_seq1, ev_seq2, ev_data2],
                       blocked = [], data = [12], offset = 1\<rparr>"

definition world_failing :: world where
  \<comment> \<open>the second call on the store fails\<close>
  "world_failing = \<lparr>db = db_blocked, now = 7, calls = [], faults = [None, Some 5]\<rparr>"

section \<open>Calls on the collaborators\<close>

lemma db_called [simp]: "db (called c w) = db w"
  by (simp add: called_def)

lemma now_called [simp]: "now (called c w) = now w"
  by (simp add: called_def)

lemma calls_called [simp]: "calls (called c w) = calls w @ [c]"
  by (simp add: called_def)

lemma faults_called [simp]: "faults (called c w) = tl (faults w)"
  by (simp add: called_def)

lemma no_faults_next: "no_faults w \<Longrightarrow> next_fault w = None"
  by (cases "faults w") (simp_all add: no_faults_def next_fault_def)

lemma no_faults_called: "no_faults w \<Longrightarrow> no_faults (called c w)"
  by (cases "faults w") (simp_all add: no_faults_def)

lemma no_faults_db [simp]: "no_faults (w\<lparr>db := d\<rparr>) = no_faults w"
  by (simp add: no_faults_def)

lemma no_faults_now [simp]: "no_faults (w\<lparr>now := t\<rparr>) = no_faults w"
  by (simp add: no_faults_def)

lemma called_db_update [simp]: "called c (w\<lparr>db := d\<rparr>) = (called c w)\<lparr>db := d\<rparr>"
  by (simp add: called_def)

lemma called_now_update [simp]: "called c (w\<lparr>now := t\<rparr>) = (called c w)\<lparr>now := t\<rparr>"
  by (simp add: called_def)

lemma next_fault_db [simp]: "next_fault (w\<lparr>db := d\<rparr>) = next_fault w"
  by (simp add: next_fault_def)

lemma next_fault_now [simp]: "next_fault (w\<lparr>now := t\<rparr>) = next_fault w"
  by (simp add: next_fault_def)

lemmas store_defs =
  GetMessageByID_def GetMessagesForData_def GetEvents_def GetMessageRefs_def
  CheckDataAvailable_def GetBlockedByContext_def UpsertBlocked_def UpdateBlocked_def
  DeleteBlocked_def UpdateMessage_def UpsertEvent_def commitOffset_def
  HandleSystemBroadcast_def db_call_def

lemmas aggregator_defs =
  processEvents_def processEvent_def processDataArrived_def checkMessageComplete_def
  sequencedEventExists_def confirmMessage_def unblockContext_def checkUpdateContextBlocked_def
  store_defs next_fault_def called_def run_filter_def fb_And_def fb_Eq_def fb_Gt_def Sort_def
  Limit_def Now_def NewEvent_def NewUUID_def used_ids_def List.map_filter_def next_sequence_def
  hasAnyOf_def SystemNamespace_def Let_def

lemmas example_defs =
  msg1_def msg2_def ev_seq1_def ev_seq2_def ev_data1_def ev_data2_def ev_conf_def blocker1_def
  world_of_def db_empty_def db_blocked_def db_second_first_def

section \<open>New ids are fresh\<close>

lemma foldr_max_ge: "x \<in> set xs \<Longrightarrow> x \<le> foldr max xs (0::nat)"
  by (induction xs) auto

lemma NewUUID_fresh: "NewUUID w \<notin> set (used_ids w)"
  using foldr_max_ge [of "NewUUID w" "used_ids w"] by (auto simp: NewUUID_def)

lemma NewUUID_called [simp]: "NewUUID (called c w) = NewUUID w"
  by (simp add: NewUUID_def used_ids_def)

lemma NewUUID_now [simp]: "NewUUID (w\<lparr>now := t\<rparr>) = NewUUID w"
  by (simp add: NewUUID_def used_ids_def)

lemma NewUUID_not_blocked [simp]: "NewUUID w \<notin> bID ` set (blocked (db w))"
  using NewUUID_fresh [of w] by (auto simp: used_ids_def)

lemma NewUUID_not_event [simp]: "Some (NewUUID w) \<notin> eID ` set (events (db w))"
proof
  assume "Some (NewUUID w) \<in> eID ` set (events (db w))"
  then obtain e where "e \<in> set (events (db w))" "eID e = Some (NewUUID w)" by force
  then have "NewUUID w \<in> set (List.map_filter eID (events (db w)))"
    by (force simp: map_filter_def)
  then show False using NewUUID_fresh [of w] by (simp add: used_ids_def)
qed

section \<open>Blocking a context\<close>

lemma checkUpdateContextBlocked_ok:
  assumes "no_faults w"
  shows "checkUpdateContextBlocked msg complete w =
     (case blockerOf msg w of
        Some b \<Rightarrow>
          (called (CallGetBlockedByContext (mNamespace msg) (mContext msg) (mGroup msg)) w,
           Inr (Some b))
      | None \<Rightarrow>
          if complete
          then (called (CallGetBlockedByContext (mNamespace msg) (mContext msg) (mGroup msg)) w,
                Inr None)
          else ((called (CallUpsertBlocked (NewUUID w))
                  (called (CallGetBlockedByContext (mNamespace msg) (mContext msg) (mGroup msg)) w))
                   \<lparr>db := (db w)\<lparr>blocked := blocked (db w) @ [newBlocked msg w]\<rparr>,
                     now := Suc (now w)\<rparr>,
                Inr (Some (newBlocked msg w))))"
  using assms
  by (auto simp: checkUpdateContextBlocked_def GetBlockedByContext_def UpsertBlocked_def
        db_call_def Now_def Let_def blockerOf_def newBlocked_def no_faults_next no_faults_called
        split: option.splits)

lemma checkUpdateContextBlocked_frame:
  assumes "checkUpdateContextBlocked msg complete w = (w', r)"
  shows "messages (db w') = messages (db w) \<and> events (db w') = events (db w)
       \<and> data (db w') = data (db w) \<and> offset (db w') = offset (db w)
       \<and> (blocked (db w') = blocked (db w)
          \<or> (blockerOf msg w = None \<and> \<not> complete \<and> r = Inr (Some (newBlocked msg w))
              \<and> blocked (db w') = blocked (db w) @ [newBlocked msg w]))"
  using assms
  by (auto simp: checkUpdateContextBlocked_def GetBlockedByContext_def UpsertBlocked_def
        db_call_def Now_def Let_def blockerOf_def newBlocked_def
        split: option.splits if_splits)

text \<open>
  C4. \<open>checkUpdateContextBlocked\<close> never touches a row that is there: whatever the store
  does, the blocked table is as it was or has one more row at its end, the new row naming
  \<open>msg\<close>, and that only when no row existed for the context and the message is not
  complete. When no call fails it creates that row exactly then; an existing row is returned
  as it is, and with no row and a complete message it returns nil and writes nothing.
\<close>

theorem checkUpdateContextBlocked_creates_only_when_free_and_incomplete:
  "(blocked (db (fst (checkUpdateContextBlocked msg complete w))) = blocked (db w)
      \<or> (blockerOf msg w = None \<and> \<not> complete
          \<and> blocked (db (fst (checkUpdateContextBlocked msg complete w)))
              = blocked (db w) @ [newBlocked msg w]))
   \<and> (no_faults w \<longrightarrow>
        (blocked (db (fst (checkUpdateContextBlocked msg complete w))) \<noteq> blocked (db w))
           = (blockerOf msg w = None \<and> \<not> complete)
        \<and> snd (checkUpdateContextBlocked msg complete w)
           = Inr (case blockerOf msg w of
                    Some b \<Rightarrow> Some b
                  | None \<Rightarrow> if complete then None else Some (newBlocked msg w))
        \<and> bMessage (newBlocked msg w) = mID msg
        \<and> bNamespace (newBlocked msg w) = mNamespace msg
        \<and> bContext (newBlocked msg w) = mContext msg
        \<and> bGroup (newBlocked msg w) = mGroup msg)"
proof (intro conjI impI)
  obtain w' r where res: "checkUpdateContextBlocked msg complete w = (w', r)"
    by (cases "checkUpdateContextBlocked msg complete w")
  show "blocked (db (fst (checkUpdateContextBlocked msg complete w))) = blocked (db w)
      \<or> (blockerOf msg w = None \<and> \<not> complete
          \<and> blocked (db (fst (checkUpdateContextBlocked msg complete w)))
              = blocked (db w) @ [newBlocked msg w])"
    using checkUpdateContextBlocked_frame [OF res] by (auto simp: res)
next
  assume "no_faults w"
  then show "(blocked (db (fst (checkUpdateContextBlocked msg complete w))) \<noteq> blocked (db w))
           = (blockerOf msg w = None \<and> \<not> complete)"
    by (simp add: checkUpdateContextBlocked_ok split: option.splits)
next
  assume "no_faults w"
  then show "snd (checkUpdateContextBlocked msg complete w)
           = Inr (case blockerOf msg w of
                    Some b \<Rightarrow> Some b
                  | None \<Rightarrow> if complete then None else Some (newBlocked msg w))"
    by (simp add: checkUpdateContextBlocked_ok split: option.splits)
next
  show "bMessage (newBlocked msg w) = mID msg"
    by (simp add: newBlocked_def)
next
  show "bNamespace (newBlocked msg w) = mNamespace msg"
    by (simp add: newBlocked_def)
next
  show "bContext (newBlocked msg w) = mContext msg"
    by (simp add: newBlocked_def)
next
  show "bGroup (newBlocked msg w) = mGroup msg"
    by (simp add: newBlocked_def)
qed

theorem checkUpdateContextBlocked_creates_only_when_free_and_incomplete_witness:
  "no_faults (world_of db_second_first)
   \<and> blockerOf msg1 (world_of db_second_first) = None
   \<and> blocked (db (fst (checkUpdateContextBlocked msg1 False (world_of db_second_first))))
       = [\<lparr>bID = 35, bNamespace = ''ns1'', bContext = ''ctx1'', bGroup = None,
           bCreated = 7, bMessage = 1\<rparr>]
   \<and> snd (checkUpdateContextBlocked msg2 False (world_of db_blocked)) = Inr (Some blocker1)"
proof -
  have nf: "no_faults (world_of db_second_first)" "no_faults (world_of db_blocked)"
    by (simp_all add: no_faults_def world_of_def)
  have free: "blockerOf msg1 (world_of db_second_first) = None"
    by (simp add: blockerOf_def world_of_def db_second_first_def)
  have held: "blockerOf msg2 (world_of db_blocked) = Some blocker1"
    by (simp add: blockerOf_def world_of_def db_blocked_def blocker1_def msg2_def)
  have new: "newBlocked msg1 (world_of db_second_first)
               = \<lparr>bID = 35, bNamespace = ''ns1'', bContext = ''ctx1'', bGroup = None,
                  bCreated = 7, bMessage = 1\<rparr>"
    by (simp add: newBlocked_def NewUUID_def used_ids_def List.map_filter_def world_of_def
          db_second_first_def msg1_def msg2_def ev_seq1_def ev_seq2_def ev_data2_def)
  have "blocked (db (fst (checkUpdateContextBlocked msg1 False (world_of db_second_first))))
          = blocked (db (world_of db_second_first)) @ [newBlocked msg1 (world_of db_second_first)]"
    using checkUpdateContextBlocked_creates_only_when_free_and_incomplete
            [of msg1 False "world_of db_second_first"] nf free
    by blast
  moreover have "snd (checkUpdateContextBlocked msg2 False (world_of db_blocked))
                   = Inr (Some blocker1)"
    using checkUpdateContextBlocked_creates_only_when_free_and_incomplete
            [of msg2 False "world_of db_blocked"] nf held
    by simp
  ultimately show ?thesis
    using nf free new by (simp add: world_of_def db_second_first_def)
qed

section \<open>The completion check\<close>

lemma take1_empty: "(length (take (Suc 0) xs) < Suc 0) = (xs = [])"
  by (cases xs) auto

lemma filter_empty_list_ex: "(filter P xs = []) = (\<not> list_ex P xs)"
  by (induction xs) auto

lemma sequencedEventExists_result:
  "sequencedEventExists msg event w =
     (if eReference event \<noteq> Some (mID msg)
      then (called CallGetEvents w,
            case next_fault w of Some err \<Rightarrow> Inl err | None \<Rightarrow> Inr (sequenced msg w))
      else (w, Inr True))"
  by (auto simp: sequencedEventExists_def GetEvents_def db_call_def run_filter_def Limit_def
        fb_And_def fb_Eq_def sequenced_def take1_empty filter_empty_list_ex
        split: option.splits)

lemma CheckDataAvailable_result:
  "CheckDataAvailable msg w =
     (called (CallCheckDataAvailable (mID msg)) w,
      case next_fault w of Some err \<Rightarrow> Inl err | None \<Rightarrow> Inr (dataAvailable msg w))"
  by (auto simp: CheckDataAvailable_def db_call_def dataAvailable_def split: option.splits)

lemma blockerOf_called [simp]: "blockerOf msg (called c w) = blockerOf msg w"
  by (simp add: blockerOf_def)

lemma dataAvailable_called [simp]: "dataAvailable msg (called c w) = dataAvailable msg w"
  by (simp add: dataAvailable_def)

lemma newBlocked_called [simp]: "newBlocked msg (called c w) = newBlocked msg w"
  by (simp add: newBlocked_def)

lemma confirmMessage_frame:
  assumes "confirmMessage msg w = (w', err)"
  shows "blocked (db w') = blocked (db w) \<and> data (db w') = data (db w)
       \<and> offset (db w') = offset (db w)
       \<and> (messages (db w') = messages (db w)
          \<or> messages (db w') = confirmRows msg (now w) (messages (db w)))"
  using assms
  by (auto simp: confirmMessage_def HandleSystemBroadcast_def UpdateMessage_def UpsertEvent_def
        db_call_def Now_def confirmRows_def
        split: option.splits if_splits)

lemma unblockContext_frame:
  assumes "unblockContext msg la b w = (w', r, err)"
  shows "messages (db w') = messages (db w) \<and> data (db w') = data (db w)
       \<and> offset (db w') = offset (db w)"
  using assms
  by (auto simp: unblockContext_def GetMessageRefs_def UpdateBlocked_def UpsertEvent_def
        DeleteBlocked_def db_call_def
        split: option.splits if_splits list.splits)

lemma checkUpdateContextBlocked_result:
  assumes "checkUpdateContextBlocked msg complete w = (w', r)"
  shows "(\<exists>err. r = Inl err \<and> (no_faults w \<longrightarrow> False))
       \<or> (r = Inr (blockerOf msg w) \<and> (blockerOf msg w = None \<longrightarrow> complete))
       \<or> (r = Inr (Some (newBlocked msg w)) \<and> blockerOf msg w = None \<and> \<not> complete)"
  using assms
  by (auto simp: checkUpdateContextBlocked_def GetBlockedByContext_def UpsertBlocked_def
        db_call_def Now_def Let_def blockerOf_def newBlocked_def no_faults_next no_faults_called
        split: option.splits if_splits)

lemma checkMessageComplete_closed_frame:
  assumes "checkMessageComplete msg la event w = (w', r, err)" and "\<not> gateOpen msg event w"
  shows "r = False \<and> messages (db w') = messages (db w) \<and> events (db w') = events (db w)
       \<and> data (db w') = data (db w) \<and> offset (db w') = offset (db w)
       \<and> (blocked (db w') = blocked (db w)
          \<or> blocked (db w') = blocked (db w) @ [newBlocked msg w])"
proof -
  obtain w1 r1 where s1: "sequencedEventExists msg event w = (w1, r1)"
    by (cases "sequencedEventExists msg event w")
  have w1: "db w1 = db w" "now w1 = now w"
    using s1 by (auto simp: sequencedEventExists_result split: if_splits)
  show ?thesis
  proof (cases r1)
    case (Inl e)
    then show ?thesis using assms(1) s1 w1 by (simp add: checkMessageComplete_def)
  next
    case (Inr go)
    show ?thesis
    proof (cases go)
      case False
      then show ?thesis using assms(1) s1 w1 Inr by (simp add: checkMessageComplete_def)
    next
      case True
      have arrived: "eReference event = Some (mID msg) \<or> sequenced msg w"
        using s1 Inr True by (auto simp: sequencedEventExists_result split: if_splits option.splits)
      obtain w2 r2 where s2: "CheckDataAvailable msg w1 = (w2, r2)"
        by (cases "CheckDataAvailable msg w1")
      have w2: "db w2 = db w" "now w2 = now w"
        using s2 w1 by (auto simp: CheckDataAvailable_result)
      show ?thesis
      proof (cases r2)
        case (Inl e)
        then show ?thesis
          using assms(1) s1 s2 w2 Inr True by (simp add: checkMessageComplete_def)
      next
        case r2: (Inr complete)
        have complete: "complete = dataAvailable msg w"
          using s2 r2 w1 by (auto simp: CheckDataAvailable_result dataAvailable_def split: option.splits)
        obtain w3 r3 where s3: "checkUpdateContextBlocked msg complete w2 = (w3, r3)"
          by (cases "checkUpdateContextBlocked msg complete w2")
        have same: "blockerOf msg w2 = blockerOf msg w" "newBlocked msg w2 = newBlocked msg w"
          using w2 by (simp_all add: blockerOf_def newBlocked_def NewUUID_def used_ids_def)
        have w3: "messages (db w3) = messages (db w)" "events (db w3) = events (db w)"
          "data (db w3) = data (db w)" "offset (db w3) = offset (db w)"
          "blocked (db w3) = blocked (db w) \<or> blocked (db w3) = blocked (db w) @ [newBlocked msg w]"
          using checkUpdateContextBlocked_frame [OF s3] w2 same by auto
        have stop: "(\<exists>e. r3 = Inl e)
            \<or> (\<exists>bb. r3 = Inr bb \<and> (\<not> complete \<or> (bb \<noteq> None \<and> map_option bMessage bb \<noteq> Some (mID msg))))"
          using checkUpdateContextBlocked_result [OF s3] assms(2) arrived complete same
          by (auto simp: gateOpen_def newBlocked_def split: option.splits)
        then show ?thesis
          using assms(1) s1 s2 s3 w3 Inr True r2
          by (auto simp: checkMessageComplete_def)
      qed
    qed
  qed
qed

lemma sequencedEventExists_ok:
  "no_faults w \<Longrightarrow>
   sequencedEventExists msg event w =
     (if eReference event \<noteq> Some (mID msg) then called CallGetEvents w else w,
      Inr (eReference event = Some (mID msg) \<or> sequenced msg w))"
  by (simp add: sequencedEventExists_result no_faults_next)

lemma checkMessageComplete_closed_ok:
  assumes "checkMessageComplete msg la event w = (w', r, err)" and "\<not> gateOpen msg event w"
    and "no_faults w"
  shows "err = None"
proof -
  define w1 where "w1 = (if eReference event \<noteq> Some (mID msg) then called CallGetEvents w else w)"
  have nf1: "no_faults w1" and db1: "db w1 = db w" "now w1 = now w"
    using assms(3) by (simp_all add: w1_def no_faults_called)
  have s1: "sequencedEventExists msg event w
              = (w1, Inr (eReference event = Some (mID msg) \<or> sequenced msg w))"
    using assms(3) by (simp add: sequencedEventExists_ok w1_def)
  define w2 where "w2 = called (CallCheckDataAvailable (mID msg)) w1"
  have nf2: "no_faults w2" and db2: "db w2 = db w" "now w2 = now w"
    using nf1 db1 by (simp_all add: w2_def no_faults_called)
  have s2: "CheckDataAvailable msg w1 = (w2, Inr (dataAvailable msg w))"
    using nf1 db1 by (simp add: CheckDataAvailable_result no_faults_next w2_def dataAvailable_def)
  have same: "blockerOf msg w2 = blockerOf msg w"
    using db2 by (simp add: blockerOf_def)
  show ?thesis
  proof (cases "eReference event = Some (mID msg) \<or> sequenced msg w")
    case False
    then show ?thesis using assms(1) s1 by (simp add: checkMessageComplete_def)
  next
    case True
    then show ?thesis
      using assms(1,2) s1 s2 same
      by (cases "blockerOf msg w"; cases "dataAvailable msg w")
         (auto simp: checkMessageComplete_def gateOpen_def checkUpdateContextBlocked_ok [OF nf2])
  qed
qed


lemma mID_confirmRows [simp]: "map mID (confirmRows msg t rows) = map mID rows"
  by (induction rows) (simp_all add: confirmRows_def)

lemma checkUpdateContextBlocked_complete:
  assumes "checkUpdateContextBlocked msg True w = (w', r)"
  shows "db w' = db w \<and> now w' = now w
       \<and> ((\<exists>err. r = Inl err) \<or> r = Inr (blockerOf msg w))"
  using assms
  by (auto simp: checkUpdateContextBlocked_def GetBlockedByContext_def db_call_def blockerOf_def
        split: option.splits)

lemma checkMessageComplete_messages:
  assumes "checkMessageComplete msg la event w = (w', r, err)"
  shows "messages (db w') = messages (db w)
       \<or> messages (db w') = confirmRows msg (now w) (messages (db w))"
proof (cases "gateOpen msg event w")
  case False
  then show ?thesis using checkMessageComplete_closed_frame [OF assms] by simp
next
  case True
  obtain w1 r1 where s1: "sequencedEventExists msg event w = (w1, r1)"
    by (cases "sequencedEventExists msg event w")
  have w1: "db w1 = db w" "now w1 = now w"
    using s1 by (auto simp: sequencedEventExists_result split: if_splits)
  obtain w2 r2 where s2: "CheckDataAvailable msg w1 = (w2, r2)"
    by (cases "CheckDataAvailable msg w1")
  have w2: "db w2 = db w" "now w2 = now w"
    using s2 w1 by (auto simp: CheckDataAvailable_result)
  have r2: "(\<exists>e. r2 = Inl e) \<or> r2 = Inr True"
    using s2 w1 True
    by (auto simp: CheckDataAvailable_result gateOpen_def dataAvailable_def split: option.splits)
  obtain w3 r3 where s3: "checkUpdateContextBlocked msg True w2 = (w3, r3)"
    by (cases "checkUpdateContextBlocked msg True w2")
  have w3: "db w3 = db w" "now w3 = now w"
    using checkUpdateContextBlocked_complete [OF s3] w2 by simp_all
  obtain w4 e4 where s4: "confirmMessage msg w3 = (w4, e4)"
    by (cases "confirmMessage msg w3")
  have w4: "messages (db w4) = messages (db w)
          \<or> messages (db w4) = confirmRows msg (now w) (messages (db w))"
    using confirmMessage_frame [OF s4] w3 by auto
  have w5: "unblockContext msg la b w4 = (w', r, err) \<Longrightarrow> messages (db w') = messages (db w4)" for b
    using unblockContext_frame [of msg la b w4 w' r err] by simp
  show ?thesis
    using assms s1 s2 s3 s4 w1 w2 w3 w4 w5 r2
    by (auto simp: checkMessageComplete_def split: sum.splits bool.splits option.splits if_splits)
qed

lemma confirmMessage_ok:
  assumes "no_faults w"
  shows "\<exists>w'. confirmMessage msg w = (w', None) \<and> no_faults w'
            \<and> db w' = (db w)\<lparr>messages := confirmRows msg (now w) (messages (db w)),
                              events := events (db w) @ [confirmedEvent msg w]\<rparr>"
proof -
  define w1 where "w1 = (if mNamespace msg = SystemNamespace
                         then called (CallHandleSystemBroadcast (mID msg)) w else w)"
  have s1: "(if mNamespace msg = SystemNamespace then HandleSystemBroadcast msg w else (w, None))
              = (w1, None)"
    using assms by (simp add: w1_def HandleSystemBroadcast_def db_call_def no_faults_next)
  have nf1: "no_faults w1" and d1: "db w1 = db w" "now w1 = now w"
    using assms by (simp_all add: w1_def no_faults_called)
  define w2 where "w2 = (called (CallUpdateMessage (mID msg)) (w1\<lparr>now := Suc (now w)\<rparr>))
                          \<lparr>db := (db w)\<lparr>messages := confirmRows msg (now w) (messages (db w))\<rparr>\<rparr>"
  have s2: "UpdateMessage (mID msg) (\<lambda>m. m\<lparr>mConfirmed := Some (now w)\<rparr>) (w1\<lparr>now := Suc (now w)\<rparr>)
              = (w2, None)"
    using nf1 d1 by (simp add: UpdateMessage_def db_call_def no_faults_next w2_def confirmRows_def)
  have nf2: "no_faults w2"
    using nf1 by (simp add: w2_def no_faults_called)
  have u2: "NewUUID w2 = NewUUID w"
    by (simp add: w2_def NewUUID_def used_ids_def d1)
  have fresh: "Some (NewUUID w) \<notin> eID ` set (events (db w))"
    by simp
  have e2: "events (db w2) = events (db w)"
    by (simp add: w2_def)
  have "\<exists>w'. UpsertEvent (NewEvent EventTypeMessageConfirmed (mNamespace msg) (Some (mID msg)) w2)
                 False w2 = (w', None) \<and> no_faults w'
              \<and> db w' = (db w2)\<lparr>events := events (db w) @ [confirmedEvent msg w]\<rparr>"
    using nf2 fresh
    by (simp add: UpsertEvent_def db_call_def no_faults_next no_faults_called NewEvent_def u2 e2
          confirmedEvent_def)
  then show ?thesis
    using s1 s2 d1 by (auto simp: confirmMessage_def Now_def w2_def)
qed

lemma sort_key_head:
  assumes "sort_key f xs = y # ys"
  shows "y \<in> set xs \<and> (\<forall>x\<in>set xs. f y \<le> f x)"
proof -
  have "set (sort_key f xs) = set xs" by simp
  then have s: "set xs = insert y (set ys)" using assms by simp
  have "sorted (map f (sort_key f xs))" by (rule sorted_sort_key)
  then have "\<forall>x\<in>set ys. f y \<le> f x" using assms by simp
  then show ?thesis using s by auto
qed

lemma laterUnconfirmed_confirmRows:
  "laterUnconfirmed msg (confirmRows msg t rows)
     = laterUnconfirmed msg [m \<leftarrow> rows. mID m \<noteq> mID msg]"
  by (induction rows) (simp_all add: laterUnconfirmed_def confirmRows_def)

lemma successors_alt: "successors msg w = laterUnconfirmed msg [m \<leftarrow> messages (db w). mID m \<noteq> mID msg]"
  by (simp add: successors_def laterUnconfirmed_def conj_ac) 

lemma GetMessageRefs_unblock:
  assumes "no_faults w"
  shows "GetMessageRefs
             (Limit (Suc 0) (Sort mSequence (fb_And
                [fb_Eq mNamespace (mNamespace msg),
                 fb_Eq mGroup (mGroup msg),
                 fb_Eq mContext (mContext msg),
                 fb_Gt mSequence (mSequence msg),
                 fb_Eq mConfirmed None]))) w
          = (called CallGetMessageRefs w,
             Inr (map (\<lambda>m. \<lparr>rID = mID m, rSequence = mSequence m\<rparr>)
                    (take (Suc 0) (sort_key mSequence (laterUnconfirmed msg (messages (db w)))))))"
  using assms
  by (simp add: GetMessageRefs_def db_call_def no_faults_next run_filter_def Limit_def Sort_def
        fb_And_def fb_Eq_def fb_Gt_def laterUnconfirmed_def)

lemma unblockContext_ok:
  assumes "no_faults w"
  shows "\<exists>w' r. unblockContext msg la b w = (w', r, None) \<and> no_faults w'
           \<and> messages (db w') = messages (db w)
           \<and> (case sort_key mSequence (laterUnconfirmed msg (messages (db w))) of
                [] \<Rightarrow> r = False \<and> events (db w') = events (db w)
                      \<and> blocked (db w') = filter (\<lambda>x. bID x \<noteq> bID b) (blocked (db w))
              | n # _ \<Rightarrow>
                  r = (\<not> hasAnyOf la (mID n)
                          [EventTypeMessageConfirmed, EventTypeMessageSequencedBroadcast])
                  \<and> blocked (db w')
                      = map (\<lambda>x. if bID x = bID b then x\<lparr>bMessage := mID n\<rparr> else x)
                            (blocked (db w))
                  \<and> events (db w')
                      = events (db w) @ (if r then [unblockedEvent msg (mID n) w] else []))"
proof (cases "sort_key mSequence (laterUnconfirmed msg (messages (db w)))")
  case Nil
  then show ?thesis
    using assms
    by (auto simp: unblockContext_def GetMessageRefs_unblock DeleteBlocked_def db_call_def
          no_faults_next no_faults_called)
next
  case (Cons n ns)
  define w1 where "w1 = called CallGetMessageRefs w"
  have nf1: "no_faults w1" using assms by (simp add: w1_def no_faults_called)
  define w2 where "w2 = (called (CallUpdateBlocked (bID b)) w1)
      \<lparr>db := (db w)\<lparr>blocked := map (\<lambda>x. if bID x = bID b then x\<lparr>bMessage := mID n\<rparr> else x)
                                   (blocked (db w))\<rparr>\<rparr>"
  have s2: "UpdateBlocked (bID b) (\<lambda>r. r\<lparr>bMessage := mID n\<rparr>) w1 = (w2, None)"
    using nf1 by (simp add: UpdateBlocked_def db_call_def no_faults_next w2_def w1_def)
  have nf2: "no_faults w2" using nf1 by (simp add: w2_def no_faults_called)
  have ids: "bID \<circ> (\<lambda>x. if bID x = bID b then x\<lparr>bMessage := mID n\<rparr> else x) = bID"
    by (rule ext) simp
  have u2: "NewUUID w2 = NewUUID w"
    by (simp add: w2_def w1_def NewUUID_def used_ids_def ids)
  have e2: "events (db w2) = events (db w)"
    by (simp add: w2_def)
  have fresh: "Some (NewUUID w) \<notin> eID ` set (events (db w))"
    by simp
  have s3: "\<exists>w'. UpsertEvent (NewEvent EventTypeMessagesUnblocked (mNamespace msg) (Some (mID n)) w2)
                 False w2 = (w', None) \<and> no_faults w'
              \<and> db w' = (db w2)\<lparr>events := events (db w) @ [unblockedEvent msg (mID n) w]\<rparr>"
    using nf2 fresh
    by (simp add: UpsertEvent_def db_call_def no_faults_next no_faults_called NewEvent_def u2 e2
          unblockedEvent_def)
  have refs: "GetMessageRefs
             (Limit (Suc 0) (Sort mSequence (fb_And
                [fb_Eq mNamespace (mNamespace msg),
                 fb_Eq mGroup (mGroup msg),
                 fb_Eq mContext (mContext msg),
                 fb_Gt mSequence (mSequence msg),
                 fb_Eq mConfirmed None]))) w
          = (w1, Inr [\<lparr>rID = mID n, rSequence = mSequence n\<rparr>])"
    using GetMessageRefs_unblock [OF assms, of msg] Cons by (simp add: w1_def)
  have step: "unblockContext msg la b w =
     (if hasAnyOf la (mID n) [EventTypeMessageConfirmed, EventTypeMessageSequencedBroadcast]
      then (w2, False, None)
      else (case UpsertEvent (NewEvent EventTypeMessagesUnblocked (mNamespace msg)
                                (Some (mID n)) w2) False w2 of
              (w3, Some err) \<Rightarrow> (w3, False, Some err)
            | (w3, None) \<Rightarrow> (w3, True, None)))"
    by (simp add: unblockContext_def refs s2)
  have m2: "messages (db w2) = messages (db w)"
    and b2: "blocked (db w2) = map (\<lambda>x. if bID x = bID b then x\<lparr>bMessage := mID n\<rparr> else x)
                                    (blocked (db w))"
    by (simp_all add: w2_def)
  show ?thesis
  proof (cases "hasAnyOf la (mID n) [EventTypeMessageConfirmed, EventTypeMessageSequencedBroadcast]")
    case True
    have "unblockContext msg la b w = (w2, False, None)"
      using step True by simp
    then show ?thesis
      using nf2 m2 b2 e2 True by (auto simp: Cons)
  next
    case False
    from s3 obtain w3 where w3: "UpsertEvent (NewEvent EventTypeMessagesUnblocked (mNamespace msg)
                 (Some (mID n)) w2) False w2 = (w3, None)" "no_faults w3"
              "db w3 = (db w2)\<lparr>events := events (db w) @ [unblockedEvent msg (mID n) w]\<rparr>"
      by blast
    have "unblockContext msg la b w = (w3, True, None)"
      using step False w3(1) by simp
    then show ?thesis
      using w3(2,3) m2 b2 False by (auto simp: Cons)
  qed
qed

lemma checkMessageComplete_open_ok:
  assumes nf: "no_faults w"
    and arrived: "eReference event = Some (mID msg) \<or> sequenced msg w"
    and complete: "dataAvailable msg w"
    and blk: "blockerOf msg w = Some b" "bMessage b = mID msg"
  shows "\<exists>w4 w5 r5. checkMessageComplete msg la event w = (w5, r5, None)
           \<and> unblockContext msg la b w4 = (w5, r5, None) \<and> no_faults w4
           \<and> db w4 = (db w)\<lparr>messages := confirmRows msg (now w) (messages (db w)),
                              events := events (db w) @ [confirmedEvent msg w]\<rparr>"
proof -
  define w1 where "w1 = (if eReference event \<noteq> Some (mID msg) then called CallGetEvents w else w)"
  have nf1: "no_faults w1" and db1: "db w1 = db w" "now w1 = now w"
    using nf by (simp_all add: w1_def no_faults_called)
  have s1: "sequencedEventExists msg event w = (w1, Inr True)"
    using nf arrived by (simp add: sequencedEventExists_ok w1_def)
  define w2 where "w2 = called (CallCheckDataAvailable (mID msg)) w1"
  have nf2: "no_faults w2" and db2: "db w2 = db w" "now w2 = now w"
    using nf1 db1 by (simp_all add: w2_def no_faults_called)
  have s2: "CheckDataAvailable msg w1 = (w2, Inr True)"
    using nf1 db1 complete
    by (simp add: CheckDataAvailable_result no_faults_next w2_def dataAvailable_def)
  define w3 where
    "w3 = called (CallGetBlockedByContext (mNamespace msg) (mContext msg) (mGroup msg)) w2"
  have same: "blockerOf msg w2 = Some b"
    using db2 blk by (simp add: blockerOf_def)
  have s3: "checkUpdateContextBlocked msg True w2 = (w3, Inr (Some b))"
    by (simp add: checkUpdateContextBlocked_ok [OF nf2] same w3_def)
  have nf3: "no_faults w3" and db3: "db w3 = db w" "now w3 = now w"
    using nf2 db2 by (simp_all add: w3_def no_faults_called)
  have ce: "confirmedEvent msg w3 = confirmedEvent msg w"
    by (simp add: confirmedEvent_def NewUUID_def used_ids_def db3)
  obtain w4 where s4: "confirmMessage msg w3 = (w4, None)" and nf4: "no_faults w4"
    and db4: "db w4 = (db w)\<lparr>messages := confirmRows msg (now w) (messages (db w)),
                              events := events (db w) @ [confirmedEvent msg w]\<rparr>"
    using confirmMessage_ok [OF nf3, of msg] db3 ce by auto
  obtain w5 r5 where s5: "unblockContext msg la b w4 = (w5, r5, None)"
    using unblockContext_ok [OF nf4, of msg la b] by blast
  have "checkMessageComplete msg la event w = (w5, r5, None)"
    using s1 s2 s3 s4 s5 blk by (simp add: checkMessageComplete_def)
  then show ?thesis using s5 nf4 db4 by blast
qed

lemma sort_key_Nil_iff: "(sort_key f xs = []) = (xs = [])"
  by (metis length_sort length_0_conv)

lemma hasAnyOf_remaining:
  "hasAnyOf ebr ref types
     = (\<exists>evs. map_of ebr ref = Some evs \<and> (\<exists>ev\<in>set evs. eType ev \<in> set types))"
  by (cases "map_of ebr ref") (auto simp: hasAnyOf_def list_ex_iff)

text \<open>
  C5. When no call fails and \<open>checkMessageComplete\<close> confirms \<open>msg\<close> (its envelope has
  arrived and its data is complete) while the Blocked row \<open>b\<close> of its context names \<open>msg\<close>:
  if the context has no unconfirmed message with a higher sequence, the rows with \<open>b\<close>'s id
  are deleted and only the confirmed event is inserted; otherwise, for a successor \<open>n\<close> of
  least sequence, the \<open>message\<close> field of those rows becomes \<open>n\<close>'s id, and a
  messages-unblocked event that references \<open>n\<close> is inserted after the confirmed event and
  \<open>repoll\<close> is true if and only if the lookahead index has no remaining message-confirmed
  or message-sequenced-broadcast event for \<open>n\<close>: none among the events that the index
  holds under \<open>n\<close>'s id.
\<close>

theorem checkMessageComplete_unblocks_successor:
  assumes res: "checkMessageComplete msg la event w = (w', r, err)"
    and nf: "no_faults w"
    and arrived: "eReference event = Some (mID msg) \<or> sequenced msg w"
    and complete: "dataAvailable msg w"
    and blk: "blockerOf msg w = Some b" "bMessage b = mID msg"
  shows "err = None
     \<and> messages (db w') = confirmRows msg (now w) (messages (db w))
     \<and> (successors msg w = [] \<longrightarrow>
          r = False
          \<and> blocked (db w') = filter (\<lambda>x. bID x \<noteq> bID b) (blocked (db w))
          \<and> events (db w') = events (db w) @ [confirmedEvent msg w])
     \<and> (successors msg w \<noteq> [] \<longrightarrow>
          (\<exists>n\<in>set (successors msg w).
              (\<forall>m\<in>set (successors msg w). mSequence n \<le> mSequence m)
              \<and> blocked (db w')
                  = map (\<lambda>x. if bID x = bID b then x\<lparr>bMessage := mID n\<rparr> else x) (blocked (db w))
              \<and> r = (\<not> (\<exists>evs. map_of la (mID n) = Some evs
                            \<and> (\<exists>ev\<in>set evs. eType ev = EventTypeMessageConfirmed
                                   \<or> eType ev = EventTypeMessageSequencedBroadcast)))
              \<and> (\<exists>ue. eventKey ue = (EventTypeMessagesUnblocked, mNamespace msg, Some (mID n))
                     \<and> events (db w')
                         = events (db w) @ confirmedEvent msg w # (if r then [ue] else []))))"
proof -
  obtain w4 where u: "unblockContext msg la b w4 = (w', r, err)" and e: "err = None"
    and nf4: "no_faults w4"
    and db4: "db w4 = (db w)\<lparr>messages := confirmRows msg (now w) (messages (db w)),
                              events := events (db w) @ [confirmedEvent msg w]\<rparr>"
    using checkMessageComplete_open_ok [OF nf arrived complete blk, of la] res by auto
  have later: "laterUnconfirmed msg (messages (db w4)) = successors msg w"
    by (simp add: db4 laterUnconfirmed_confirmRows successors_alt)
  from unblockContext_ok [OF nf4, of msg la b] u
  have k: "messages (db w') = messages (db w4)
       \<and> (case sort_key mSequence (successors msg w) of
            [] \<Rightarrow> r = False \<and> events (db w') = events (db w4)
                  \<and> blocked (db w') = filter (\<lambda>x. bID x \<noteq> bID b) (blocked (db w4))
          | n # _ \<Rightarrow>
              r = (\<not> hasAnyOf la (mID n)
                      [EventTypeMessageConfirmed, EventTypeMessageSequencedBroadcast])
              \<and> blocked (db w')
                  = map (\<lambda>x. if bID x = bID b then x\<lparr>bMessage := mID n\<rparr> else x)
                        (blocked (db w4))
              \<and> events (db w')
                  = events (db w4) @ (if r then [unblockedEvent msg (mID n) w4] else []))"
    by (auto simp: later)
  show ?thesis
  proof (cases "sort_key mSequence (successors msg w)")
    case Nil
    then have "successors msg w = []" by (simp add: sort_key_Nil_iff)
    then show ?thesis using k Nil e by (simp add: db4)
  next
    case (Cons n ns)
    then have ne: "successors msg w \<noteq> []" by auto
    have hd: "n \<in> set (successors msg w)" "\<forall>m\<in>set (successors msg w). mSequence n \<le> mSequence m"
      using sort_key_head [OF Cons] by auto
    have key: "eventKey (unblockedEvent msg (mID n) w4)
                 = (EventTypeMessagesUnblocked, mNamespace msg, Some (mID n))"
      by (simp add: eventKey_def unblockedEvent_def)
    have rest: "blocked (db w')
                  = map (\<lambda>x. if bID x = bID b then x\<lparr>bMessage := mID n\<rparr> else x) (blocked (db w))
        \<and> r = (\<not> (\<exists>evs. map_of la (mID n) = Some evs
                      \<and> (\<exists>ev\<in>set evs. eType ev = EventTypeMessageConfirmed
                             \<or> eType ev = EventTypeMessageSequencedBroadcast)))
        \<and> events (db w')
            = events (db w) @ confirmedEvent msg w
                # (if r then [unblockedEvent msg (mID n) w4] else [])"
      using k Cons by (simp add: db4 hasAnyOf_remaining)
    have "\<exists>n\<in>set (successors msg w).
              (\<forall>m\<in>set (successors msg w). mSequence n \<le> mSequence m)
              \<and> blocked (db w')
                  = map (\<lambda>x. if bID x = bID b then x\<lparr>bMessage := mID n\<rparr> else x) (blocked (db w))
              \<and> r = (\<not> (\<exists>evs. map_of la (mID n) = Some evs
                            \<and> (\<exists>ev\<in>set evs. eType ev = EventTypeMessageConfirmed
                                   \<or> eType ev = EventTypeMessageSequencedBroadcast)))
              \<and> (\<exists>ue. eventKey ue = (EventTypeMessagesUnblocked, mNamespace msg, Some (mID n))
                     \<and> events (db w')
                         = events (db w) @ confirmedEvent msg w # (if r then [ue] else []))"
      using hd key rest by blast
    then show ?thesis using k e ne by (simp add: db4)
  qed
qed

theorem checkMessageComplete_unblocks_successor_witness:
  "snd (checkMessageComplete msg1 [] ev_data1 (world_of db_blocked)) = (True, None)
   \<and> messages (db (fst (checkMessageComplete msg1 [] ev_data1 (world_of db_blocked))))
       = [msg1\<lparr>mConfirmed := Some 7\<rparr>, msg2]
   \<and> blocked (db (fst (checkMessageComplete msg1 [] ev_data1 (world_of db_blocked))))
       = [blocker1\<lparr>bMessage := 2\<rparr>]
   \<and> snd (checkMessageComplete msg1 [(2, [ev_seq2])] ev_data1 (world_of db_blocked))
       = (False, None)
   \<and> blocked (db (fst (checkMessageComplete msg1 [(2, [ev_seq2])] ev_data1
                          (world_of db_blocked))))
       = [blocker1\<lparr>bMessage := 2\<rparr>]
   \<and> map eventKey (drop 4 (events (db (fst (checkMessageComplete msg1 [(2, [ev_seq2])] ev_data1
                                              (world_of db_blocked))))))
       = [(EventTypeMessageConfirmed, ''ns1'', Some 1)]
   \<and> snd (checkMessageComplete msg1 [(2, [ev_seq2\<lparr>eType := EventTypeMessageConfirmed\<rparr>])]
             ev_data1 (world_of db_blocked))
       = (False, None)
   \<and> snd (checkMessageComplete msg1 [(2, [ev_seq2\<lparr>eType := EventTypeMessagesUnblocked\<rparr>])]
             ev_data1 (world_of db_blocked))
       = (True, None)"
proof -
  have nf: "no_faults (world_of db_blocked)"
    by (simp add: no_faults_def world_of_def)
  have arrived: "eReference ev_data1 = Some (mID msg1) \<or> sequenced msg1 (world_of db_blocked)"
    by (simp add: sequenced_def example_defs)
  have complete: "dataAvailable msg1 (world_of db_blocked)"
    by (simp add: dataAvailable_def example_defs)
  have blk: "blockerOf msg1 (world_of db_blocked) = Some blocker1" "bMessage blocker1 = mID msg1"
    by (simp_all add: blockerOf_def example_defs)
  have succ: "successors msg1 (world_of db_blocked) = [msg2]"
    by (simp add: successors_def example_defs)
  have rows: "confirmRows msg1 (now (world_of db_blocked)) (messages (db (world_of db_blocked)))
                = [msg1\<lparr>mConfirmed := Some 7\<rparr>, msg2]"
    by (simp add: confirmRows_def example_defs)
  have id2: "mID msg2 = 2" by (simp add: msg2_def)
  have ce: "eventKey (confirmedEvent msg1 (world_of db_blocked))
              = (EventTypeMessageConfirmed, ''ns1'', Some 1)"
    by (simp add: eventKey_def confirmedEvent_def msg1_def)
  have old: "events (db (world_of db_blocked)) = [ev_seq1, ev_seq2, ev_data1, ev_conf]"
    by (simp add: world_of_def db_blocked_def)
  have bl: "map (\<lambda>x. if bID x = bID blocker1 then x\<lparr>bMessage := 2\<rparr> else x)
                (blocked (db (world_of db_blocked))) = [blocker1\<lparr>bMessage := 2\<rparr>]"
    by (simp add: world_of_def db_blocked_def)
  have general: "err = None
        \<and> messages (db w') = [msg1\<lparr>mConfirmed := Some 7\<rparr>, msg2]
        \<and> blocked (db w') = [blocker1\<lparr>bMessage := 2\<rparr>]
        \<and> r = (\<not> (\<exists>evs. map_of la 2 = Some evs
                      \<and> (\<exists>ev\<in>set evs. eType ev = EventTypeMessageConfirmed
                             \<or> eType ev = EventTypeMessageSequencedBroadcast)))
        \<and> (\<not> r \<longrightarrow> map eventKey (drop 4 (events (db w')))
                      = [(EventTypeMessageConfirmed, ''ns1'', Some 1)])"
    if res: "checkMessageComplete msg1 la ev_data1 (world_of db_blocked) = (w', r, err)"
    for la w' r err
  proof -
    note t = checkMessageComplete_unblocks_successor [OF res nf arrived complete blk]
    have t1: "err = None" and t2: "messages (db w') = [msg1\<lparr>mConfirmed := Some 7\<rparr>, msg2]"
      using t rows by simp_all
    have "successors msg1 (world_of db_blocked) \<noteq> []"
      using succ by simp
    with t obtain n ue where n: "n \<in> set (successors msg1 (world_of db_blocked))"
      and nb: "blocked (db w')
                 = map (\<lambda>x. if bID x = bID blocker1 then x\<lparr>bMessage := mID n\<rparr> else x)
                       (blocked (db (world_of db_blocked)))"
      and nr: "r = (\<not> (\<exists>evs. map_of la (mID n) = Some evs
                      \<and> (\<exists>ev\<in>set evs. eType ev = EventTypeMessageConfirmed
                             \<or> eType ev = EventTypeMessageSequencedBroadcast)))"
      and ne: "events (db w')
                   = events (db (world_of db_blocked))
                     @ confirmedEvent msg1 (world_of db_blocked) # (if r then [ue] else [])"
      by blast
    have m2: "mID n = 2" using n succ id2 by simp
    have t3: "blocked (db w') = [blocker1\<lparr>bMessage := 2\<rparr>]
        \<and> r = (\<not> (\<exists>evs. map_of la 2 = Some evs
                      \<and> (\<exists>ev\<in>set evs. eType ev = EventTypeMessageConfirmed
                             \<or> eType ev = EventTypeMessageSequencedBroadcast)))"
      using nb nr bl unfolding m2 by simp
    from ne have "\<not> r \<Longrightarrow> events (db w')
                 = [ev_seq1, ev_seq2, ev_data1, ev_conf, confirmedEvent msg1 (world_of db_blocked)]"
      using old by simp
    then have t4: "\<not> r \<longrightarrow> map eventKey (drop 4 (events (db w')))
                      = [(EventTypeMessageConfirmed, ''ns1'', Some 1)]"
      using ce by simp
    show ?thesis using t1 t2 t3 t4 by blast
  qed
  obtain wa ra ea where a:
    "checkMessageComplete msg1 [] ev_data1 (world_of db_blocked) = (wa, ra, ea)"
    by (cases "checkMessageComplete msg1 [] ev_data1 (world_of db_blocked)") auto
  obtain wb rb eb where b:
    "checkMessageComplete msg1 [(2, [ev_seq2])] ev_data1 (world_of db_blocked) = (wb, rb, eb)"
    by (cases "checkMessageComplete msg1 [(2, [ev_seq2])] ev_data1 (world_of db_blocked)") auto
  obtain wc rc ec where c:
    "checkMessageComplete msg1 [(2, [ev_seq2\<lparr>eType := EventTypeMessageConfirmed\<rparr>])]
        ev_data1 (world_of db_blocked) = (wc, rc, ec)"
    by (cases "checkMessageComplete msg1 [(2, [ev_seq2\<lparr>eType := EventTypeMessageConfirmed\<rparr>])]
                 ev_data1 (world_of db_blocked)") auto
  obtain wd rd ed where d:
    "checkMessageComplete msg1 [(2, [ev_seq2\<lparr>eType := EventTypeMessagesUnblocked\<rparr>])]
        ev_data1 (world_of db_blocked) = (wd, rd, ed)"
    by (cases "checkMessageComplete msg1 [(2, [ev_seq2\<lparr>eType := EventTypeMessagesUnblocked\<rparr>])]
                 ev_data1 (world_of db_blocked)") auto
  have ka: "ra \<and> ea = None \<and> messages (db wa) = [msg1\<lparr>mConfirmed := Some 7\<rparr>, msg2]
            \<and> blocked (db wa) = [blocker1\<lparr>bMessage := 2\<rparr>]"
    using general [OF a] by simp
  have kb: "\<not> rb \<and> eb = None \<and> blocked (db wb) = [blocker1\<lparr>bMessage := 2\<rparr>]
            \<and> map eventKey (drop 4 (events (db wb)))
                = [(EventTypeMessageConfirmed, ''ns1'', Some 1)]"
    using general [OF b] by (simp add: ev_seq2_def)
  have kc: "\<not> rc \<and> ec = None"
    using general [OF c] by (simp add: ev_seq2_def)
  have kd: "rd \<and> ed = None"
    using general [OF d] by (simp add: ev_seq2_def)
  show ?thesis
    using ka kb kc kd by (simp add: a b c d)
qed

text \<open>
  C3. \<open>checkMessageComplete\<close> stops before it confirms anything, with \<open>repoll\<close> false, in
  each of three cases: the triggering event does not reference \<open>msg\<close> and no
  message-sequenced-broadcast event for \<open>msg\<close> is in the log; the data of \<open>msg\<close> is not
  all available; a Blocked row of the context names another message. Whatever the store
  does, no message row and no event changes, and the blocked table is as it was or has one
  new row at its end; when no call fails the error is nil.
\<close>

theorem checkMessageComplete_stops_before_confirming:
  assumes "checkMessageComplete msg la event w = (w', r, err)"
    and "(eReference event \<noteq> Some (mID msg) \<and> \<not> sequenced msg w)
         \<or> \<not> dataAvailable msg w
         \<or> (\<exists>b. blockerOf msg w = Some b \<and> bMessage b \<noteq> mID msg)"
  shows "r = False \<and> (no_faults w \<longrightarrow> err = None)
       \<and> messages (db w') = messages (db w) \<and> events (db w') = events (db w)
       \<and> data (db w') = data (db w) \<and> offset (db w') = offset (db w)
       \<and> (blocked (db w') = blocked (db w)
          \<or> blocked (db w') = blocked (db w) @ [newBlocked msg w])"
proof -
  have closed: "\<not> gateOpen msg event w"
    using assms(2) by (auto simp: gateOpen_def)
  show ?thesis
    using checkMessageComplete_closed_frame [OF assms(1) closed]
          checkMessageComplete_closed_ok [OF assms(1) closed]
    by simp
qed

theorem checkMessageComplete_stops_before_confirming_witness:
  "snd (checkMessageComplete msg1 [] ev_data2 (world_of db_empty)) = (False, None)
   \<and> events (db (fst (checkMessageComplete msg1 [] ev_data2 (world_of db_empty)))) = []
   \<and> snd (checkMessageComplete msg1 [] ev_seq1 (world_of db_second_first)) = (False, None)
   \<and> messages (db (fst (checkMessageComplete msg1 [] ev_seq1 (world_of db_second_first))))
       = [msg1, msg2]
   \<and> snd (checkMessageComplete msg2 [] ev_seq2 (world_of db_blocked)) = (False, None)
   \<and> messages (db (fst (checkMessageComplete msg2 [] ev_seq2 (world_of db_blocked))))
       = [msg1, msg2]"
proof -
  obtain wa ra ea where a: "checkMessageComplete msg1 [] ev_data2 (world_of db_empty) = (wa, ra, ea)"
    by (cases "checkMessageComplete msg1 [] ev_data2 (world_of db_empty)") auto
  obtain wb rb eb where b:
    "checkMessageComplete msg1 [] ev_seq1 (world_of db_second_first) = (wb, rb, eb)"
    by (cases "checkMessageComplete msg1 [] ev_seq1 (world_of db_second_first)") auto
  obtain wc rc ec where c: "checkMessageComplete msg2 [] ev_seq2 (world_of db_blocked) = (wc, rc, ec)"
    by (cases "checkMessageComplete msg2 [] ev_seq2 (world_of db_blocked)") auto
  have nf: "no_faults (world_of db_empty)" "no_faults (world_of db_second_first)"
    "no_faults (world_of db_blocked)"
    by (simp_all add: no_faults_def world_of_def)
  have ha: "eReference ev_data2 \<noteq> Some (mID msg1) \<and> \<not> sequenced msg1 (world_of db_empty)"
    by (simp add: sequenced_def example_defs)
  have hb: "\<not> dataAvailable msg1 (world_of db_second_first)"
    by (simp add: dataAvailable_def example_defs)
  have hc: "\<exists>b. blockerOf msg2 (world_of db_blocked) = Some b \<and> bMessage b \<noteq> mID msg2"
    by (simp add: blockerOf_def example_defs)
  have "ra = False \<and> ea = None \<and> events (db wa) = []"
    using checkMessageComplete_stops_before_confirming [OF a] ha nf
    by (simp add: world_of_def db_empty_def)
  moreover have "rb = False \<and> eb = None \<and> messages (db wb) = [msg1, msg2]"
    using checkMessageComplete_stops_before_confirming [OF b] hb nf
    by (simp add: world_of_def db_second_first_def)
  moreover have "rc = False \<and> ec = None \<and> messages (db wc) = [msg1, msg2]"
    using checkMessageComplete_stops_before_confirming [OF c] hc nf
    by (simp add: world_of_def db_blocked_def)
  ultimately show ?thesis by (simp add: a b c)
qed

section \<open>Confirmation order\<close>

text \<open>
  C1, as amended. \<open>checkMessageComplete\<close> changes the messages table only by setting
  \<open>confirmed\<close> on the rows of \<open>msg\<close>, and only when the data of \<open>msg\<close> is complete and
  the context has no Blocked row or one that names \<open>msg\<close>; while a Blocked row names
  another message, \<open>msg\<close> is not confirmed. That a lower-sequenced message of the context is
  still unconfirmed does not hold a message back when no Blocked row exists.
\<close>

theorem checkMessageComplete_confirms_only_through_gate:
  assumes "checkMessageComplete msg la event w = (w', r, err)"
  shows "(messages (db w') \<noteq> messages (db w)
            \<longrightarrow> dataAvailable msg w
                \<and> (blockerOf msg w = None
                   \<or> (\<exists>b. blockerOf msg w = Some b \<and> bMessage b = mID msg)))
       \<and> (messages (db w') = messages (db w)
          \<or> messages (db w') = confirmRows msg (now w) (messages (db w)))
       \<and> ((\<exists>b. blockerOf msg w = Some b \<and> bMessage b \<noteq> mID msg)
            \<longrightarrow> messages (db w') = messages (db w))"
proof -
  have gate: "messages (db w') \<noteq> messages (db w) \<Longrightarrow> gateOpen msg event w"
    using checkMessageComplete_closed_frame [OF assms] by blast
  have open_then: "gateOpen msg event w \<Longrightarrow>
      dataAvailable msg w
      \<and> (blockerOf msg w = None \<or> (\<exists>b. blockerOf msg w = Some b \<and> bMessage b = mID msg))"
    by (auto simp: gateOpen_def split: option.splits)
  have other: "\<exists>b. blockerOf msg w = Some b \<and> bMessage b \<noteq> mID msg \<Longrightarrow> \<not> gateOpen msg event w"
    by (auto simp: gateOpen_def)
  show ?thesis
    using gate open_then other checkMessageComplete_messages [OF assms] by blast
qed

theorem checkMessageComplete_confirms_only_through_gate_witness:
  "messages (db (fst (checkMessageComplete msg2 [] ev_seq2 (world_of db_second_first))))
     = [msg1, msg2\<lparr>mConfirmed := Some 7\<rparr>]
   \<and> dataAvailable msg2 (world_of db_second_first)
   \<and> blockerOf msg2 (world_of db_second_first) = None
   \<and> blockerOf msg2 (world_of db_blocked) = Some blocker1
   \<and> bMessage blocker1 \<noteq> mID msg2
   \<and> messages (db (fst (checkMessageComplete msg2 [] ev_seq2 (world_of db_blocked))))
       = [msg1, msg2]"
proof -
  obtain wa ra ea where a:
    "checkMessageComplete msg2 [] ev_seq2 (world_of db_second_first) = (wa, ra, ea)"
    by (cases "checkMessageComplete msg2 [] ev_seq2 (world_of db_second_first)") auto
  obtain wc rc ec where c: "checkMessageComplete msg2 [] ev_seq2 (world_of db_blocked) = (wc, rc, ec)"
    by (cases "checkMessageComplete msg2 [] ev_seq2 (world_of db_blocked)") auto
  have run: "messages (db (fst (checkMessageComplete msg2 [] ev_seq2 (world_of db_second_first))))
     = [msg1, msg2\<lparr>mConfirmed := Some 7\<rparr>]"
    by (simp add: aggregator_defs example_defs)
  then have "messages (db wa) = [msg1, msg2\<lparr>mConfirmed := Some 7\<rparr>]"
    by (simp add: a)
  then have changed: "messages (db wa) \<noteq> messages (db (world_of db_second_first))"
    by (simp add: example_defs)
  have held: "blockerOf msg2 (world_of db_blocked) = Some blocker1" "bMessage blocker1 \<noteq> mID msg2"
    by (simp_all add: blockerOf_def example_defs)
  have "dataAvailable msg2 (world_of db_second_first)
        \<and> (blockerOf msg2 (world_of db_second_first) = None
           \<or> (\<exists>b. blockerOf msg2 (world_of db_second_first) = Some b \<and> bMessage b = mID msg2))"
    using checkMessageComplete_confirms_only_through_gate [OF a] changed by blast
  moreover have "blockerOf msg2 (world_of db_second_first) = None"
    by (simp add: blockerOf_def example_defs)
  moreover have "messages (db wc) = messages (db (world_of db_blocked))"
    using checkMessageComplete_confirms_only_through_gate [OF c] held by blast
  then have "messages (db wc) = [msg1, msg2]"
    by (simp add: world_of_def db_blocked_def)
  ultimately show ?thesis
    using run held by (simp add: c)
qed

text \<open>
  The claim as stated fails: with the first message waiting for its data and no Blocked row,
  the batch of the second message's events confirms the second message ahead of the first.
\<close>

theorem later_message_confirmed_first:
  "confirmedInSequenceOrder (messages (db (world_of db_second_first)))
   \<and> blocked (db (world_of db_second_first)) = []
   \<and> snd (processEvents [ev_seq2, ev_data2] (world_of db_second_first)) = (False, None)
   \<and> messages (db (fst (processEvents [ev_seq2, ev_data2] (world_of db_second_first))))
       = [msg1, msg2\<lparr>mConfirmed := Some 7\<rparr>]
   \<and> \<not> confirmedInSequenceOrder
          (messages (db (fst (processEvents [ev_seq2, ev_data2] (world_of db_second_first)))))"
proof -
  have run: "processEvents [ev_seq2, ev_data2] (world_of db_second_first)
      = (\<lparr>db = db_second_first\<lparr>messages := [msg1, msg2\<lparr>mConfirmed := Some 7\<rparr>],
              events := [ev_seq1, ev_seq2, ev_data2,
                 \<lparr>eID = Some 35, eSequence = 4, eType = EventTypeMessageConfirmed,
                  eNamespace = ''ns1'', eReference = Some 2\<rparr>],
              offset := 3\<rparr>,
          now = 8,
          calls = [CallGetMessageByID (Some 2), CallCheckDataAvailable 2,
                   CallGetBlockedByContext ''ns1'' ''ctx1'' None, CallUpdateMessage 2,
                   CallUpsertEvent EventTypeMessageConfirmed (Some 2),
                   CallGetMessagesForData (Some 12), CallCommitOffset 3],
          faults = []\<rparr>, False, None)"
    by (simp add: aggregator_defs example_defs)
  show ?thesis
    unfolding run by (simp add: confirmedInSequenceOrder_def example_defs)
qed

section \<open>Data arrival\<close>

lemma processDataArrived_loop_checks:
  "processDataArrived_loop msgs la event acc w =
     (case completionChecks
             [m \<leftarrow> msgs. \<not> hasAnyOf la (mID m) [EventTypeMessageSequencedBroadcast]] la event w of
        (w', repolls, None) \<Rightarrow> (w', foldl (\<or>) acc repolls, None)
      | (w', repolls, Some err) \<Rightarrow> (w', False, Some err))"
proof (induction msgs arbitrary: acc w)
  case Nil
  then show ?case by simp
next
  case (Cons m msgs)
  show ?case
  proof (cases "hasAnyOf la (mID m) [EventTypeMessageSequencedBroadcast]")
    case True
    then show ?thesis using Cons.IH [of acc w] by simp
  next
    case False
    obtain w1 r1 e1 where c: "checkMessageComplete m la event w = (w1, r1, e1)"
      by (cases "checkMessageComplete m la event w") auto
    show ?thesis
    proof (cases e1)
      case None
      then show ?thesis
        using False c Cons.IH [of "acc \<or> r1" w1]
        by (simp split: prod.splits option.splits)
    next
      case (Some err)
      then show ?thesis using False c by simp
    qed
  qed
qed

lemma GetMessagesForData_unconfirmed:
  assumes "next_fault w = None"
  shows "GetMessagesForData dataID
           (Sort mSequence (fb_And [fb_Eq mNamespace ns, fb_Eq mConfirmed None])) w
         = (called (CallGetMessagesForData dataID) w,
            Inr (sort_key mSequence (unconfirmedForData ns dataID w)))"
  using assms
  by (simp add: GetMessagesForData_def db_call_def run_filter_def Sort_def fb_And_def fb_Eq_def
        unconfirmedForData_def conj_ac)

text \<open>
  C7. When the query succeeds, \<open>processDataArrived\<close> gets exactly the unconfirmed messages
  of the namespace whose data references contain the event's reference, in ascending
  sequence order. It leaves out the messages for which the lookahead index has a remaining
  message-sequenced-broadcast event, calls \<open>checkMessageComplete\<close> on each of the others in
  that order, and returns the OR of the repolls; an error ends it with \<open>(false, error)\<close>.
\<close>

theorem processDataArrived_checks_unconfirmed_in_order:
  assumes "next_fault w = None"
  shows "\<exists>msgs.
      GetMessagesForData (eReference event)
         (Sort mSequence (fb_And [fb_Eq mNamespace ns, fb_Eq mConfirmed None])) w
        = (called (CallGetMessagesForData (eReference event)) w, Inr msgs)
      \<and> set msgs = {m \<in> set (messages (db w)).
                      eReference event \<in> Some ` set (mData m)
                      \<and> mNamespace m = ns \<and> mConfirmed m = None}
      \<and> msgs = sort_key mSequence (unconfirmedForData ns (eReference event) w)
      \<and> sorted (map mSequence msgs)
      \<and> processDataArrived ns la event w
          = (case completionChecks
                    [m \<leftarrow> msgs. \<not> hasAnyOf la (mID m) [EventTypeMessageSequencedBroadcast]]
                    la event (called (CallGetMessagesForData (eReference event)) w) of
               (w', repolls, None) \<Rightarrow> (w', foldl (\<or>) False repolls, None)
             | (w', repolls, Some err) \<Rightarrow> (w', False, Some err))"
proof -
  let ?msgs = "sort_key mSequence (unconfirmedForData ns (eReference event) w)"
  have q: "GetMessagesForData (eReference event)
         (Sort mSequence (fb_And [fb_Eq mNamespace ns, fb_Eq mConfirmed None])) w
        = (called (CallGetMessagesForData (eReference event)) w, Inr ?msgs)"
    by (rule GetMessagesForData_unconfirmed [OF assms])
  have s: "set ?msgs = {m \<in> set (messages (db w)).
                      eReference event \<in> Some ` set (mData m)
                      \<and> mNamespace m = ns \<and> mConfirmed m = None}"
    by (auto simp: unconfirmedForData_def)
  have o: "sorted (map mSequence ?msgs)"
    by (rule sorted_sort_key)
  have p: "processDataArrived ns la event w
          = (case completionChecks
                    [m \<leftarrow> ?msgs. \<not> hasAnyOf la (mID m) [EventTypeMessageSequencedBroadcast]]
                    la event (called (CallGetMessagesForData (eReference event)) w) of
               (w', repolls, None) \<Rightarrow> (w', foldl (\<or>) False repolls, None)
             | (w', repolls, Some err) \<Rightarrow> (w', False, Some err))"
    by (simp add: processDataArrived_def q processDataArrived_loop_checks)
  show ?thesis using q s o p by blast
qed

theorem processDataArrived_checks_unconfirmed_in_order_witness:
  "processDataArrived ''ns1'' [(2, [ev_seq2])] ev_data2 (world_of db_second_first)
     = (called (CallGetMessagesForData (Some 12)) (world_of db_second_first), False, None)
   \<and> messages (db (fst (processDataArrived ''ns1'' [] ev_data2 (world_of db_second_first))))
     = [msg1, msg2\<lparr>mConfirmed := Some 7\<rparr>]"
proof -
  have nf: "next_fault (world_of db_second_first) = None"
    by (simp add: next_fault_def world_of_def)
  have u: "unconfirmedForData ''ns1'' (eReference ev_data2) (world_of db_second_first) = [msg2]"
    by (simp add: unconfirmedForData_def example_defs)
  have skip: "hasAnyOf [(2, [ev_seq2])] (mID msg2) [EventTypeMessageSequencedBroadcast]"
    by (simp add: hasAnyOf_def example_defs)
  have r: "eReference ev_data2 = Some 12"
    by (simp add: ev_data2_def)
  have a: "processDataArrived ''ns1'' [(2, [ev_seq2])] ev_data2 (world_of db_second_first)
     = (called (CallGetMessagesForData (Some 12)) (world_of db_second_first), False, None)"
    using processDataArrived_checks_unconfirmed_in_order
            [OF nf, of ev_data2 "''ns1''" "[(2, [ev_seq2])]"] u skip r
    by auto
  have b: "messages (db (fst (processDataArrived ''ns1'' [] ev_data2 (world_of db_second_first))))
     = [msg1, msg2\<lparr>mConfirmed := Some 7\<rparr>]"
    by (simp add: aggregator_defs example_defs)
  show ?thesis using a b by simp
qed

section \<open>The repoll of a batch\<close>

text \<open>
  What \<open>processEvents\<close> returns as \<open>repoll\<close> is the repoll of the last event of the batch:
  each iteration assigns the named result anew.
\<close>

lemma processEvents_loop_repoll_last:
  "processEvents_loop la evs r w = (w', r', None) \<Longrightarrow>
   r' = (if evs = [] then r else last (processEvent_repolls la evs w))
   \<and> length (processEvent_repolls la evs w) = length evs"
proof (induction evs arbitrary: la r w)
  case Nil
  then show ?case by simp
next
  case (Cons e evs)
  from Cons.prems obtain i where i: "eID e = Some i"
    by (cases "eID e") auto
  obtain rm la' where rm: "remove la i = (rm, la')" by (cases "remove la i")
  obtain w1 r1 e1 where pe: "processEvent la' e w = (w1, r1, e1)"
    by (cases "processEvent la' e w") auto
  have e1: "e1 = None" using Cons.prems i rm pe by (cases e1) auto
  have rest: "processEvents_loop la' evs r1 w1 = (w', r', None)"
    using Cons.prems i rm pe e1 by simp
  show ?case
    using Cons.IH [OF rest] i rm pe e1 by (cases evs) auto
qed

text \<open>
  C2. The claim is that the returned \<open>repoll\<close> is the logical OR over the events of the
  batch. On the batch of the data-arrived event for the first message's data followed by a
  confirmed event of another message, \<open>processEvent\<close> returns true for the first event (it
  inserts a messages-unblocked event for the second message) and false for the second, and
  \<open>processEvents\<close> returns false.
\<close>

theorem processEvents_repoll_overwritten:
  "build_lookahead [] [ev_data1, ev_conf] = Inr [(11, [ev_data1]), (9, [ev_conf])]
   \<and> processEvent_repolls [(11, [ev_data1]), (9, [ev_conf])] [ev_data1, ev_conf]
        (world_of db_blocked) = [True, False]
   \<and> snd (processEvents [ev_data1, ev_conf] (world_of db_blocked)) = (False, None)
   \<and> map eventKey (drop 4 (events (db (fst (processEvents [ev_data1, ev_conf]
                                                (world_of db_blocked))))))
       = [(EventTypeMessageConfirmed, ''ns1'', Some 1),
          (EventTypeMessagesUnblocked, ''ns1'', Some 2)]"
  by (simp add: aggregator_defs example_defs eventKey_def)

section \<open>A failing event ends the batch\<close>

lemma commits_called:
  "commits (called c w) = commits w @ (case c of CallCommitOffset v \<Rightarrow> [c] | _ \<Rightarrow> [])"
  by (cases c) (simp_all add: commits_def)

lemma commits_db [simp]: "commits (w\<lparr>db := d\<rparr>) = commits w"
  by (simp add: commits_def)

lemma commits_now [simp]: "commits (w\<lparr>now := t\<rparr>) = commits w"
  by (simp add: commits_def)

lemma checkUpdateContextBlocked_offset:
  "checkUpdateContextBlocked msg complete w = (w', r) \<Longrightarrow>
   offset (db w') = offset (db w) \<and> commits w' = commits w"
  by (auto simp: checkUpdateContextBlocked_def GetBlockedByContext_def UpsertBlocked_def
        db_call_def Now_def Let_def commits_called
        split: option.splits if_splits)

lemma sequencedEventExists_offset:
  "sequencedEventExists msg event w = (w', r) \<Longrightarrow>
   offset (db w') = offset (db w) \<and> commits w' = commits w"
  by (auto simp: sequencedEventExists_result commits_called split: if_splits)

lemma CheckDataAvailable_offset:
  "CheckDataAvailable msg w = (w', r) \<Longrightarrow>
   offset (db w') = offset (db w) \<and> commits w' = commits w"
  by (auto simp: CheckDataAvailable_result commits_called)

lemma confirmMessage_offset:
  "confirmMessage msg w = (w', r) \<Longrightarrow>
   offset (db w') = offset (db w) \<and> commits w' = commits w"
  by (auto simp: confirmMessage_def HandleSystemBroadcast_def UpdateMessage_def UpsertEvent_def
        db_call_def Now_def commits_called
        split: option.splits if_splits)

lemma unblockContext_offset:
  "unblockContext msg la b w = (w', r) \<Longrightarrow>
   offset (db w') = offset (db w) \<and> commits w' = commits w"
  by (auto simp: unblockContext_def GetMessageRefs_def UpdateBlocked_def UpsertEvent_def
        DeleteBlocked_def db_call_def commits_called
        split: option.splits if_splits list.splits)

lemma checkMessageComplete_offset:
  assumes res: "checkMessageComplete msg la event w = (w', r)"
  shows "offset (db w') = offset (db w) \<and> commits w' = commits w"
proof -
  obtain w1 r1 where s1: "sequencedEventExists msg event w = (w1, r1)"
    by (cases "sequencedEventExists msg event w")
  note k1 = sequencedEventExists_offset [OF s1]
  show ?thesis
  proof (cases "r1 = Inr True")
    case False
    then have "w' = w1"
      using res s1 by (cases r1) (auto simp: checkMessageComplete_def)
    then show ?thesis using k1 by simp
  next
    case go: True
    obtain w2 r2 where s2: "CheckDataAvailable msg w1 = (w2, r2)"
      by (cases "CheckDataAvailable msg w1")
    have k2: "offset (db w2) = offset (db w) \<and> commits w2 = commits w"
      using CheckDataAvailable_offset [OF s2] k1 by simp
    show ?thesis
    proof (cases r2)
      case (Inl e)
      then have "w' = w2" using res s1 s2 go by (simp add: checkMessageComplete_def)
      then show ?thesis using k2 by simp
    next
      case (Inr complete)
      obtain w3 r3 where s3: "checkUpdateContextBlocked msg complete w2 = (w3, r3)"
        by (cases "checkUpdateContextBlocked msg complete w2")
      have k3: "offset (db w3) = offset (db w) \<and> commits w3 = commits w"
        using checkUpdateContextBlocked_offset [OF s3] k2 by simp
      obtain w4 e4 where s4: "confirmMessage msg w3 = (w4, e4)"
        by (cases "confirmMessage msg w3")
      have k4: "offset (db w4) = offset (db w) \<and> commits w4 = commits w"
        using confirmMessage_offset [OF s4] k3 by simp
      have k5: "unblockContext msg la b w4 = (w', r) \<Longrightarrow>
                offset (db w') = offset (db w) \<and> commits w' = commits w" for b
        using unblockContext_offset [of msg la b w4 w' r] k4 by simp
      have "w' = w3 \<or> w' = w4 \<or> (\<exists>b. unblockContext msg la b w4 = (w', r))"
        using res s1 s2 s3 s4 go Inr
        by (cases r3; cases e4)
           (auto simp: checkMessageComplete_def split: if_splits option.splits)
      then show ?thesis using k3 k4 k5 by blast
    qed
  qed
qed

lemma processDataArrived_loop_offset:
  "processDataArrived_loop msgs la event r w = (w', res) \<Longrightarrow>
   offset (db w') = offset (db w) \<and> commits w' = commits w"
proof (induction msgs arbitrary: r w)
  case Nil
  then show ?case by simp
next
  case (Cons m msgs)
  show ?case
  proof (cases "hasAnyOf la (mID m) [EventTypeMessageSequencedBroadcast]")
    case True
    then show ?thesis using Cons by simp
  next
    case False
    obtain w1 r1 e1 where c: "checkMessageComplete m la event w = (w1, r1, e1)"
      by (cases "checkMessageComplete m la event w") auto
    note k = checkMessageComplete_offset [OF c]
    show ?thesis
    proof (cases e1)
      case None
      then show ?thesis using Cons.prems False c k Cons.IH [of "r \<or> r1" w1] by simp
    next
      case (Some e)
      then show ?thesis using Cons.prems False c k by auto
    qed
  qed
qed

lemma processDataArrived_offset:
  "processDataArrived ns la event w = (w', res) \<Longrightarrow>
   offset (db w') = offset (db w) \<and> commits w' = commits w"
  by (auto simp: processDataArrived_def GetMessagesForData_def db_call_def commits_called
           split: option.splits dest: processDataArrived_loop_offset)

lemma processEvent_offset:
  "processEvent la event w = (w', res) \<Longrightarrow>
   offset (db w') = offset (db w) \<and> commits w' = commits w"
  by (cases "eType event")
     (auto simp: processEvent_def GetMessageByID_def db_call_def commits_called
           split: option.splits if_splits
           dest: processDataArrived_offset checkMessageComplete_offset)

lemma processEvents_loop_offset:
  "processEvents_loop la evs r w = (w', res) \<Longrightarrow>
   offset (db w') = offset (db w) \<and> commits w' = commits w"
proof (induction evs arbitrary: la r w)
  case Nil
  then show ?case by simp
next
  case (Cons e evs)
  show ?case
  proof (cases "eID e")
    case None
    then show ?thesis using Cons.prems by simp
  next
    case (Some i)
    obtain rm la' where rm: "remove la i = (rm, la')" by (cases "remove la i")
    obtain w1 r1 e1 where pe: "processEvent la' e w = (w1, r1, e1)"
      by (cases "processEvent la' e w") auto
    note k = processEvent_offset [OF pe]
    show ?thesis
    proof (cases e1)
      case None
      then show ?thesis using Cons.prems Some rm pe k Cons.IH [of la' r1 w1] by simp
    next
      case (Some err)
      then show ?thesis using Cons.prems \<open>eID e = Some i\<close> rm pe k by auto
    qed
  qed
qed

lemma processEvents_loop_append:
  "processEvents_loop la (pre @ post) r w =
     (case processEvents_loop la pre r w of
        (w1, r1, Some err) \<Rightarrow> (w1, False, Some err)
      | (w1, r1, None) \<Rightarrow> processEvents_loop (lookahead_after la pre) post r1 w1)"
proof (induction pre arbitrary: la r w)
  case Nil
  then show ?case by (simp add: lookahead_after_def)
next
  case (Cons e pre)
  show ?case
  proof (cases "eID e")
    case None
    then show ?thesis by simp
  next
    case (Some i)
    obtain rm la' where rm: "remove la i = (rm, la')" by (cases "remove la i")
    obtain w1 r1 e1 where pe: "processEvent la' e w = (w1, r1, e1)"
      by (cases "processEvent la' e w") auto
    have la: "lookahead_after la (e # pre) = lookahead_after la' pre"
      by (simp add: lookahead_after_def Some rm)
    show ?thesis
      unfolding la using Some rm pe Cons.IH [of la' r1 w1] by (cases e1) simp_all
  qed
qed

text \<open>
  C8. When the events before \<open>event\<close> are processed without error and \<open>processEvent\<close>
  returns an error for \<open>event\<close>, \<open>processEvents\<close> returns \<open>(false, that error)\<close> in the
  world that \<open>processEvent\<close> left: the events after it are not processed, no offset commit
  is made and the offset is as before. \<open>processEventRetryAndGroup\<close> returns the same pair with
  every table as it was before the batch.
\<close>

theorem processEvents_stops_at_first_error:
  assumes "build_lookahead [] (pre @ event # post) = Inr la"
    and "processEvents_loop la pre False w = (w1, r1, None)"
    and "eID event = Some ident"
    and "processEvent (snd (remove (lookahead_after la pre) ident)) event w1 = (w2, r2, Some err)"
  shows "processEvents (pre @ event # post) w = (w2, False, Some err)
       \<and> offset (db w2) = offset (db w) \<and> commits w2 = commits w
       \<and> processEventRetryAndGroup (pre @ event # post) w = (w2\<lparr>db := db w\<rparr>, False, Some err)"
proof -
  obtain rm la' where rm: "remove (lookahead_after la pre) ident = (rm, la')"
    by (cases "remove (lookahead_after la pre) ident")
  have loop: "processEvents_loop la (pre @ event # post) False w = (w2, False, Some err)"
    using assms(2,3,4) rm by (simp add: processEvents_loop_append)
  have run: "processEvents (pre @ event # post) w = (w2, False, Some err)"
    using assms(1) loop by (simp add: processEvents_def)
  have kept: "offset (db w2) = offset (db w) \<and> commits w2 = commits w"
    using processEvents_loop_offset [OF loop] .
  show ?thesis
    using run kept by (simp add: processEventRetryAndGroup_def RunAsGroup_def)
qed

theorem processEvents_stops_at_first_error_witness:
  "processEvents [ev_conf, ev_data1, ev_seq2] world_failing
     = (\<lparr>db = db_blocked, now = 7, calls = [CallGetMessagesForData (Some 11), CallGetEvents],
         faults = []\<rparr>, False, Some (PersistenceError 5))
   \<and> processEventRetryAndGroup [ev_conf, ev_data1, ev_seq2] world_failing
     = (\<lparr>db = db_blocked, now = 7, calls = [CallGetMessagesForData (Some 11), CallGetEvents],
         faults = []\<rparr>, False, Some (PersistenceError 5))"
proof -
  let ?la = "[(9, [ev_conf]), (11, [ev_data1]), (2, [ev_seq2])]"
  let ?w2 = "\<lparr>db = db_blocked, now = 7, calls = [CallGetMessagesForData (Some 11), CallGetEvents],
              faults = []\<rparr>"
  have h1: "build_lookahead [] ([ev_conf] @ ev_data1 # [ev_seq2]) = Inr ?la"
    by (simp add: example_defs)
  have h2: "processEvents_loop ?la [ev_conf] False world_failing = (world_failing, False, None)"
    by (simp add: processEvent_def example_defs)
  have h3: "eID ev_data1 = Some 33"
    by (simp add: ev_data1_def)
  have h4: "processEvent (snd (remove (lookahead_after ?la [ev_conf]) 33)) ev_data1 world_failing
              = (?w2, False, Some (PersistenceError 5))"
    by (simp add: lookahead_after_def world_failing_def aggregator_defs example_defs)
  show ?thesis
    using processEvents_stops_at_first_error [OF h1 h2 h3 h4]
    by (simp add: world_failing_def)
qed

section \<open>Store calls never panic\<close>

lemma next_fault_store: "next_fault w = Some err \<Longrightarrow> \<not> is_panic err"
  by (cases "faults w") (auto simp: next_fault_def is_panic_def)

lemma checkUpdateContextBlocked_store:
  "checkUpdateContextBlocked msg complete w = (w', Inl err) \<Longrightarrow> \<not> is_panic err"
  by (auto simp: checkUpdateContextBlocked_def store_defs Now_def Let_def is_panic_def
           split: option.splits if_splits dest: next_fault_store)

lemma sequencedEventExists_store:
  "sequencedEventExists msg event w = (w', Inl err) \<Longrightarrow> \<not> is_panic err"
  by (auto simp: sequencedEventExists_def store_defs
           split: option.splits if_splits dest: next_fault_store)

lemma confirmMessage_store:
  "confirmMessage msg w = (w', Some err) \<Longrightarrow> \<not> is_panic err"
  by (auto simp: confirmMessage_def store_defs Now_def is_panic_def
           split: option.splits if_splits dest: next_fault_store)

lemma unblockContext_store:
  "unblockContext msg la b w = (w', r, Some err) \<Longrightarrow> \<not> is_panic err"
  by (auto simp: unblockContext_def store_defs is_panic_def
           split: option.splits if_splits list.splits dest: next_fault_store)

lemma checkMessageComplete_store:
  "checkMessageComplete msg la event w = (w', r, Some err) \<Longrightarrow> \<not> is_panic err"
  unfolding checkMessageComplete_def
  by (auto simp: CheckDataAvailable_def db_call_def
           split: prod.splits sum.splits option.splits if_splits bool.splits
           dest: next_fault_store sequencedEventExists_store checkUpdateContextBlocked_store
                 confirmMessage_store unblockContext_store)

lemma processDataArrived_loop_store:
  "processDataArrived_loop msgs la event r w = (w', r', Some err) \<Longrightarrow> \<not> is_panic err"
proof (induction msgs arbitrary: r w)
  case Nil
  then show ?case by simp
next
  case (Cons m msgs)
  then show ?case
    by (auto split: if_splits prod.splits option.splits dest: checkMessageComplete_store)
qed

lemma processDataArrived_store:
  "processDataArrived ns la event w = (w', r, Some err) \<Longrightarrow> \<not> is_panic err"
  by (auto simp: processDataArrived_def GetMessagesForData_def db_call_def
           split: option.splits dest: next_fault_store processDataArrived_loop_store)

lemma processEvent_store:
  "processEvent la event w = (w', r, Some err) \<Longrightarrow> \<not> is_panic err"
  by (cases "eType event")
     (auto simp: processEvent_def GetMessageByID_def db_call_def
           split: option.splits if_splits
           dest: next_fault_store processDataArrived_store checkMessageComplete_store)

lemma processEvents_loop_store:
  "\<forall>e\<in>set evs. eID e \<noteq> None \<Longrightarrow>
   processEvents_loop la evs r w = (w', r', Some err) \<Longrightarrow> \<not> is_panic err"
proof (induction evs arbitrary: la r w)
  case Nil
  then show ?case by simp
next
  case (Cons e evs)
  then show ?case
    by (auto split: prod.splits option.splits dest: processEvent_store)
qed

section \<open>The lookahead index is built unless a reference is nil\<close>

lemma build_lookahead_nil:
  "\<exists>e\<in>set evs. eReference e = None \<Longrightarrow> build_lookahead la evs = Inl NilPointerDereference"
  by (induction evs arbitrary: la) (auto split: option.splits)

lemma build_lookahead_ok:
  "\<forall>e\<in>set evs. eReference e \<noteq> None \<Longrightarrow> \<exists>la'. build_lookahead la evs = Inr la'"
  by (induction evs arbitrary: la) (auto split: option.splits)

section \<open>Derived events are inert\<close>

lemma processEvent_other:
  "eType event \<noteq> EventTypeDataArrivedBroadcast \<Longrightarrow>
   eType event \<noteq> EventTypeMessageSequencedBroadcast \<Longrightarrow>
   processEvent batchRefs event w = (w, False, None)"
  by (cases "eType event") (simp_all add: processEvent_def)

lemma processEvents_loop_inert:
  assumes "\<forall>e\<in>set evs. eType e \<noteq> EventTypeDataArrivedBroadcast
              \<and> eType e \<noteq> EventTypeMessageSequencedBroadcast \<and> eID e \<noteq> None"
  shows "processEvents_loop la evs r w = (w, if evs = [] then r else False, None)"
  using assms
proof (induction evs arbitrary: la r)
  case Nil
  then show ?case by simp
next
  case (Cons e evs)
  then obtain i where i: "eID e = Some i" by auto
  obtain removed la' where rm: "remove la i = (removed, la')" by (cases "remove la i")
  have pe: "processEvent la' e w = (w, False, None)"
    using Cons.prems by (simp add: processEvent_other)
  have "processEvents_loop la' evs False w = (w, if evs = [] then False else False, None)"
    using Cons.IH [of la' False] Cons.prems by simp
  then show ?case by (simp add: i rm pe)
qed

text \<open>
  C6. An event whose type is neither data-arrived-broadcast nor message-sequenced-broadcast
  (so every message-confirmed and messages-unblocked event) is returned from
  \<open>processEvent\<close> with \<open>(false, nil)\<close> and the world as it was: no call on the store is
  logged and no table changes. A non-empty batch of such events, with ids and references
  present, makes one call, the offset commit, and changes at most the offset.
\<close>

theorem derived_events_inert:
  "(eType event \<noteq> EventTypeDataArrivedBroadcast
      \<and> eType event \<noteq> EventTypeMessageSequencedBroadcast
    \<longrightarrow> processEvent batchRefs event w = (w, False, None))
   \<and> (evs \<noteq> []
      \<and> (\<forall>e\<in>set evs. eType e \<noteq> EventTypeDataArrivedBroadcast
             \<and> eType e \<noteq> EventTypeMessageSequencedBroadcast
             \<and> eID e \<noteq> None \<and> eReference e \<noteq> None)
    \<longrightarrow> processEvents evs w
          = (case commitOffset (eSequence (last evs)) w of (w', err) \<Rightarrow> (w', False, err))
        \<and> calls (fst (processEvents evs w)) = calls w @ [CallCommitOffset (eSequence (last evs))]
        \<and> (db (fst (processEvents evs w)) = db w
           \<or> db (fst (processEvents evs w)) = (db w)\<lparr>offset := eSequence (last evs)\<rparr>))"
proof (intro conjI impI)
  assume "eType event \<noteq> EventTypeDataArrivedBroadcast
            \<and> eType event \<noteq> EventTypeMessageSequencedBroadcast"
  then show "processEvent batchRefs event w = (w, False, None)"
    by (simp add: processEvent_other)
next
  assume a: "evs \<noteq> []
      \<and> (\<forall>e\<in>set evs. eType e \<noteq> EventTypeDataArrivedBroadcast
             \<and> eType e \<noteq> EventTypeMessageSequencedBroadcast
             \<and> eID e \<noteq> None \<and> eReference e \<noteq> None)"
  then obtain la where la: "build_lookahead [] evs = Inr la"
    using build_lookahead_ok [of evs "[]"] by auto
  have loop: "processEvents_loop la evs False w = (w, False, None)"
    using processEvents_loop_inert [of evs la False w] a by simp
  show eq: "processEvents evs w
          = (case commitOffset (eSequence (last evs)) w of (w', err) \<Rightarrow> (w', False, err))"
    using a by (simp add: processEvents_def la loop split: prod.splits)
  show "calls (fst (processEvents evs w)) = calls w @ [CallCommitOffset (eSequence (last evs))]"
    unfolding eq by (simp add: commitOffset_def db_call_def split: option.splits)
  show "db (fst (processEvents evs w)) = db w
           \<or> db (fst (processEvents evs w)) = (db w)\<lparr>offset := eSequence (last evs)\<rparr>"
    unfolding eq by (simp add: commitOffset_def db_call_def split: option.splits)
qed

theorem derived_events_inert_witness:
  "processEvent [] ev_conf (world_of db_blocked) = (world_of db_blocked, False, None)
   \<and> processEvents [ev_conf] (world_of db_blocked)
       = (\<lparr>db = db_blocked\<lparr>offset := 4\<rparr>, now = 7, calls = [CallCommitOffset 4], faults = []\<rparr>,
          False, None)"
  using derived_events_inert [of ev_conf "[]" "world_of db_blocked" "[ev_conf]"]
  by (simp add: ev_conf_def world_of_def commitOffset_def db_call_def next_fault_def called_def)

section \<open>A sequenced event for a missing or confirmed message\<close>

text \<open>
  C9. A message-sequenced-broadcast event whose message is not in the store, or is there
  with \<open>confirmed\<close> set, is a no-op when the lookup itself succeeds: \<open>processEvent\<close> returns
  \<open>(false, nil)\<close>, the only call it makes is \<open>GetMessageByID\<close> (so \<open>checkMessageComplete\<close>,
  whose first act is a call on the store, is not entered), and no table changes.
\<close>

theorem sequenced_event_without_message_noop:
  assumes "eType event = EventTypeMessageSequencedBroadcast"
    and "next_fault w = None"
    and "find (\<lambda>m. Some (mID m) = eReference event) (messages (db w)) = None
         \<or> (\<exists>m. find (\<lambda>m. Some (mID m) = eReference event) (messages (db w)) = Some m
                \<and> mConfirmed m \<noteq> None)"
  shows "processEvent batchRefs event w
           = (called (CallGetMessageByID (eReference event)) w, False, None)
         \<and> db (fst (processEvent batchRefs event w)) = db w
         \<and> calls (fst (processEvent batchRefs event w))
             = calls w @ [CallGetMessageByID (eReference event)]"
proof -
  have "processEvent batchRefs event w
           = (called (CallGetMessageByID (eReference event)) w, False, None)"
    using assms by (auto simp: processEvent_def GetMessageByID_def db_call_def)
  then show ?thesis by simp
qed

theorem sequenced_event_without_message_noop_witness:
  "processEvent [] ev_seq1 (world_of db_empty)
     = (\<lparr>db = db_empty, now = 7, calls = [CallGetMessageByID (Some 1)], faults = []\<rparr>, False, None)"
  using sequenced_event_without_message_noop [of ev_seq1 "world_of db_empty" "[]"]
  by (simp add: ev_seq1_def world_of_def db_empty_def next_fault_def called_def)

section \<open>Where the batch handler panics\<close>

text \<open>
  C10. \<open>processEvents\<close> dereferences \<open>event.Reference\<close> and \<open>event.ID\<close> without a nil check
  and indexes \<open>events[len(events)-1]\<close>: on the empty batch it ends in the index panic, on a
  batch with a nil reference in the nil-pointer panic (before any event is processed), and
  on a batch whose first event has a nil id in the nil-pointer panic too. On a non-empty
  batch whose events all have an id and a reference it never panics: whatever error it
  returns came from the store.
\<close>

theorem processEvents_panics_only_on_malformed_batch:
  "processEvents [] w = (w, False, Some IndexOutOfRange)
   \<and> ((\<exists>e\<in>set evs. eReference e = None)
        \<longrightarrow> processEvents evs w = (w, False, Some NilPointerDereference))
   \<and> ((\<forall>e\<in>set (event # evs). eReference e \<noteq> None) \<and> eID event = None
        \<longrightarrow> processEvents (event # evs) w = (w, False, Some NilPointerDereference))
   \<and> (evs \<noteq> [] \<and> (\<forall>e\<in>set evs. eID e \<noteq> None \<and> eReference e \<noteq> None)
        \<longrightarrow> (\<forall>err. snd (snd (processEvents evs w)) = Some err \<longrightarrow> \<not> is_panic err))"
proof (intro conjI impI allI)
  show "processEvents [] w = (w, False, Some IndexOutOfRange)"
    by (simp add: processEvents_def)
next
  assume "\<exists>e\<in>set evs. eReference e = None"
  then show "processEvents evs w = (w, False, Some NilPointerDereference)"
    by (simp add: processEvents_def build_lookahead_nil)
next
  assume a: "(\<forall>e\<in>set (event # evs). eReference e \<noteq> None) \<and> eID event = None"
  then obtain la where "build_lookahead [] (event # evs) = Inr la"
    using build_lookahead_ok [of "event # evs" "[]"] by blast
  then show "processEvents (event # evs) w = (w, False, Some NilPointerDereference)"
    using a by (simp add: processEvents_def)
next
  fix err
  assume a: "evs \<noteq> [] \<and> (\<forall>e\<in>set evs. eID e \<noteq> None \<and> eReference e \<noteq> None)"
    and r: "snd (snd (processEvents evs w)) = Some err"
  from a obtain la where la: "build_lookahead [] evs = Inr la"
    using build_lookahead_ok [of evs "[]"] by blast
  obtain w1 r1 e1 where loop: "processEvents_loop la evs False w = (w1, r1, e1)"
    by (cases "processEvents_loop la evs False w") auto
  show "\<not> is_panic err"
  proof (cases e1)
    case (Some e)
    then have "err = e" using r a by (simp add: processEvents_def la loop)
    moreover have "\<not> is_panic e"
      using processEvents_loop_store [of evs la False w w1 r1 e] a loop Some by blast
    ultimately show ?thesis by simp
  next
    case None
    then have "next_fault w1 = Some err"
      using r a by (simp add: processEvents_def la loop commitOffset_def db_call_def
                         split: option.splits)
    then show ?thesis by (rule next_fault_store)
  qed
qed

theorem processEvents_panics_only_on_malformed_batch_witness:
  "processEvents [] (world_of db_empty) = (world_of db_empty, False, Some IndexOutOfRange)
   \<and> processEvents [ev_conf\<lparr>eReference := None\<rparr>] (world_of db_empty)
       = (world_of db_empty, False, Some NilPointerDereference)
   \<and> processEvents [ev_conf\<lparr>eID := None\<rparr>, ev_seq1] (world_of db_empty)
       = (world_of db_empty, False, Some NilPointerDereference)
   \<and> snd (snd (processEvents [ev_conf, ev_seq1] world_failing)) = Some (PersistenceError 5)
   \<and> \<not> is_panic (PersistenceError 5)"
proof -
  have run: "snd (snd (processEvents [ev_conf, ev_seq1] world_failing)) = Some (PersistenceError 5)"
    by (simp add: world_failing_def aggregator_defs example_defs)
  have wf: "[ev_conf, ev_seq1] \<noteq> []
            \<and> (\<forall>e\<in>set [ev_conf, ev_seq1]. eID e \<noteq> None \<and> eReference e \<noteq> None)"
    by (simp add: ev_conf_def ev_seq1_def)
  have "\<not> is_panic (PersistenceError 5)"
    using processEvents_panics_only_on_malformed_batch
            [where w = world_failing and evs = "[ev_conf, ev_seq1]"] run wf
    by blast
  then show ?thesis
    using run
      processEvents_panics_only_on_malformed_batch
        [where w = "world_of db_empty" and evs = "[ev_conf\<lparr>eReference := None\<rparr>]"]
      processEvents_panics_only_on_malformed_batch
        [where w = "world_of db_empty" and evs = "[ev_seq1]" and event = "ev_conf\<lparr>eID := None\<rparr>"]
    by (simp add: ev_conf_def ev_seq1_def)
qed

end
